theory Spec2Isabelle
  imports Main "HOL-Library.Word"
begin

section \<open>Bytes and strings\<close>

text \<open>
  A Go \<^verbatim>\<open>string\<close> and a \<^verbatim>\<open>[]byte\<close> are sequences of bytes; both are modelled as
  \<^typ>\<open>string\<close> (a list of 8-bit \<^typ>\<open>char\<close>s).

  \<^verbatim>\<open>string(b)\<close> for a value \<^verbatim>\<open>b\<close> of the integer type \<^verbatim>\<open>byte\<close> is Go's conversion of an
  integer to a string: the UTF-8 encoding of the code point \<^verbatim>\<open>b\<close>. A byte below 0x80 is
  encoded by itself, a byte from 0x80 to 0xFF by the two bytes
  \<^verbatim>\<open>0xC0 | b>>6\<close>, \<^verbatim>\<open>0x80 | b&0x3F\<close>.
\<close>

definition string_of_byte :: "char \<Rightarrow> string" where
  "string_of_byte b =
     (let n = (of_char b :: nat)
      in if n < 128 then [b] else [char_of (192 + n div 64), char_of (128 + n mod 64)])"

text \<open>
  What a run of \<^verbatim>\<open>arg += string(b)\<close> appends to \<^verbatim>\<open>arg\<close> for the bytes \<^verbatim>\<open>b\<close> of \<open>w\<close>, in
  order.
\<close>

definition string_of_bytes :: "string \<Rightarrow> string" where
  "string_of_bytes w = concat (map string_of_byte w)"

text \<open>
  \<^verbatim>\<open>strings.HasPrefix\<close>, \<^verbatim>\<open>strings.HasSuffix\<close> and \<^verbatim>\<open>strings.TrimSuffix\<close> of Go's library
  (not among the source files), as their documentation defines them.
\<close>

definition HasPrefix :: "string \<Rightarrow> string \<Rightarrow> bool" where
  "HasPrefix s prefix \<longleftrightarrow> length s \<ge> length prefix \<and> take (length prefix) s = prefix"

definition HasSuffix :: "string \<Rightarrow> string \<Rightarrow> bool" where
  "HasSuffix s suffix \<longleftrightarrow>
     length s \<ge> length suffix \<and> drop (length s - length suffix) s = suffix"

definition TrimSuffix :: "string \<Rightarrow> string \<Rightarrow> string" where
  "TrimSuffix s suffix = (if HasSuffix s suffix then take (length s - length suffix) s else s)"

section \<open>The tokenizer \<^verbatim>\<open>buildargv\<close>\<close>

text \<open>The closure \<^verbatim>\<open>ISSPACE\<close>: space, \<^verbatim>\<open>\t\<close>, \<^verbatim>\<open>\n\<close>, \<^verbatim>\<open>\v\<close>, \<^verbatim>\<open>\f\<close>, \<^verbatim>\<open>\r\<close>.\<close>

definition ISSPACE :: "char \<Rightarrow> bool" where
  "ISSPACE ch \<longleftrightarrow>
     ch = CHR '' '' \<or> ch = CHR 0x09 \<or> ch = CHR 0x0A \<or> ch = CHR 0x0B \<or> ch = CHR 0x0C
       \<or> ch = CHR 0x0D"

text \<open>
  The cursor \<^verbatim>\<open>di\<close> into \<^verbatim>\<open>data\<close> is modelled by the unread part \<^verbatim>\<open>data[di:]\<close> of the
  buffer: \<^verbatim>\<open>di < len(data)\<close> is ``the unread part is not empty'', \<^verbatim>\<open>data[di]\<close> is its head
  and \<^verbatim>\<open>di += 1\<close> drops the head. The closure \<^verbatim>\<open>consume_whitespace\<close> returns the index of
  the first byte at or after \<^verbatim>\<open>idx\<close> that is not whitespace, or \<^verbatim>\<open>len(data)\<close>; here it
  returns the unread part from that index on.
\<close>

fun consume_whitespace :: "string \<Rightarrow> string" where
  "consume_whitespace [] = []"
| "consume_whitespace (c # cs) = (if \<not> ISSPACE c then c # cs else consume_whitespace cs)"

text \<open>
  The local variables of \<^verbatim>\<open>buildargv\<close>: the three parsing states, the argument being
  accumulated and the result.
\<close>

record scanner =
  squote :: bool
  dquote :: bool
  bsquote :: bool
  arg :: string
  result :: "string list"

text \<open>
  The body of the inner loop after its \<^verbatim>\<open>break\<close> test, for the byte \<^verbatim>\<open>data[di]\<close>: the
  chain backslash state, backslash byte, single-quote state, double-quote state, state
  entries. The characters are \<^verbatim>\<open>\\\<close> = 0x5C, \<^verbatim>\<open>'\<close> = 0x27 and \<^verbatim>\<open>"\<close> = 0x22.
\<close>

definition scan_byte :: "char \<Rightarrow> scanner \<Rightarrow> scanner" where
  "scan_byte c st =
     (if bsquote st then st\<lparr>bsquote := False, arg := arg st @ string_of_byte c\<rparr>
      else if c = CHR 0x5C then st\<lparr>bsquote := True\<rparr>
      else if squote st then
        (if c = CHR 0x27 then st\<lparr>squote := False\<rparr>
         else st\<lparr>arg := arg st @ string_of_byte c\<rparr>)
      else if dquote st then
        (if c = CHR 0x22 then st\<lparr>dquote := False\<rparr>
         else st\<lparr>arg := arg st @ string_of_byte c\<rparr>)
      else
        (if c = CHR 0x27 then st\<lparr>squote := True\<rparr>
         else if c = CHR 0x22 then st\<lparr>dquote := True\<rparr>
         else st\<lparr>arg := arg st @ string_of_byte c\<rparr>))"

text \<open>The test that leaves the inner loop: unquoted, unescaped whitespace.\<close>

definition at_break :: "char \<Rightarrow> scanner \<Rightarrow> bool" where
  "at_break c st \<longleftrightarrow> ISSPACE c \<and> \<not> squote st \<and> \<not> dquote st \<and> \<not> bsquote st"

text \<open>
  The inner loop (``scan each individual argument''): it returns the unread part of the
  buffer and the state when the loop is left, by \<^verbatim>\<open>break\<close> or at the end of the buffer.
\<close>

fun scan_arg :: "string \<Rightarrow> scanner \<Rightarrow> string \<times> scanner" where
  "scan_arg [] st = ([], st)"
| "scan_arg (c # cs) st =
     (if at_break c st then (c # cs, st) else scan_arg cs (scan_byte c st))"

lemma length_scan_arg: "length (fst (scan_arg xs st)) \<le> length xs"
  by (induction xs arbitrary: st) (auto intro: le_SucI)

lemma length_consume_whitespace: "length (consume_whitespace xs) \<le> length xs"
  by (induction xs) (auto intro: le_SucI)

lemma scan_arg_progress:
  "length (consume_whitespace (fst (scan_arg (c # cs) st))) \<le> length cs"
proof (cases "at_break c st")
  case True
  then have "consume_whitespace (fst (scan_arg (c # cs) st)) = consume_whitespace cs"
    by (simp add: at_break_def)
  then show ?thesis
    by (simp add: length_consume_whitespace)
next
  case False
  have "length (consume_whitespace (fst (scan_arg cs (scan_byte c st))))
          \<le> length (fst (scan_arg cs (scan_byte c st)))"
    by (rule length_consume_whitespace)
  also have "\<dots> \<le> length cs"
    by (rule length_scan_arg)
  finally show ?thesis
    using False by simp
qed

text \<open>
  The argument loop. Each round clears \<^verbatim>\<open>arg\<close>, runs the inner loop, appends \<^verbatim>\<open>arg\<close> to
  \<^verbatim>\<open>result\<close> and skips the whitespace that follows. The three parsing states are
  declared outside the loop and are not reset between arguments. The function returns the
  local variables as they are when the loop is left.
\<close>

function arg_loop :: "string \<Rightarrow> scanner \<Rightarrow> scanner" where
  "arg_loop [] st = st"
| "arg_loop (c # cs) st =
     (case scan_arg (c # cs) (st\<lparr>arg := []\<rparr>) of
        (rest, st') \<Rightarrow>
          arg_loop (consume_whitespace rest) (st'\<lparr>result := result st' @ [arg st']\<rparr>))"
  by pat_completeness auto
termination
proof (relation "measure (\<lambda>(xs, st). length xs)", goal_cases)
  case 1
  show ?case
    by simp
next
  case (2 c cs st rest st')
  then have "rest = fst (scan_arg (c # cs) (st\<lparr>arg := []\<rparr>))"
    by (metis fst_conv)
  then have "length (consume_whitespace rest) \<le> length cs"
    by (simp only: scan_arg_progress)
  then show ?case
    by simp
qed

definition scanner_init :: scanner where
  "scanner_init = \<lparr>squote = False, dquote = False, bsquote = False, arg = [], result = []\<rparr>"

definition buildargv :: "string \<Rightarrow> string list" where
  "buildargv data =
     (let di = consume_whitespace data
      in if di = [] then [] else result (arg_loop di scanner_init))"

text \<open>
  The states the scan goes through, in order, for the claims about every intermediate
  step: \<open>scan_arg_states\<close> lists the state after each round of the inner loop,
  \<open>arg_loop_states\<close> the state at the start of each argument (\<^verbatim>\<open>arg\<close> cleared), the states
  of its inner loop and the state after the \<^verbatim>\<open>append\<close>. They follow \<open>scan_arg\<close> and
  \<open>arg_loop\<close> equation by equation.
\<close>

fun scan_arg_states :: "string \<Rightarrow> scanner \<Rightarrow> scanner list" where
  "scan_arg_states [] st = []"
| "scan_arg_states (c # cs) st =
     (if at_break c st then [] else scan_byte c st # scan_arg_states cs (scan_byte c st))"

function arg_loop_states :: "string \<Rightarrow> scanner \<Rightarrow> scanner list" where
  "arg_loop_states [] st = []"
| "arg_loop_states (c # cs) st =
     (case scan_arg (c # cs) (st\<lparr>arg := []\<rparr>) of
        (rest, st') \<Rightarrow>
          st\<lparr>arg := []\<rparr> # scan_arg_states (c # cs) (st\<lparr>arg := []\<rparr>)
            @ st'\<lparr>result := result st' @ [arg st']\<rparr>
            # arg_loop_states (consume_whitespace rest) (st'\<lparr>result := result st' @ [arg st']\<rparr>))"
  by pat_completeness auto
termination
proof (relation "measure (\<lambda>(xs, st). length xs)", goal_cases)
  case 1
  show ?case
    by simp
next
  case (2 c cs st rest st')
  then have "rest = fst (scan_arg (c # cs) (st\<lparr>arg := []\<rparr>))"
    by (metis fst_conv)
  then have "length (consume_whitespace rest) \<le> length cs"
    by (simp only: scan_arg_progress)
  then show ?case
    by simp
qed

definition buildargv_states :: "string \<Rightarrow> scanner list" where
  "buildargv_states data =
     (let di = consume_whitespace data
      in if di = [] then [scanner_init] else scanner_init # arg_loop_states di scanner_init)"

text \<open>
  The whitespace-split words of a buffer, as the specification words them: the maximal runs
  of bytes that are not whitespace, in buffer order.
\<close>

function whitespace_split :: "string \<Rightarrow> string list" where
  "whitespace_split s =
     (case dropWhile ISSPACE s of
        [] \<Rightarrow> []
      | c # cs \<Rightarrow>
          takeWhile (\<lambda>x. \<not> ISSPACE x) (c # cs)
            # whitespace_split (dropWhile (\<lambda>x. \<not> ISSPACE x) (c # cs)))"
  by pat_completeness auto
termination
proof (relation "measure length", goal_cases)
  case 1
  show ?case
    by simp
next
  case (2 s c cs)
  have "length (dropWhile (\<lambda>x. \<not> ISSPACE x) (c # cs)) \<le> length (c # cs)"
    by (rule length_dropWhile_le)
  moreover have "\<not> ISSPACE c"
    using 2 by (metis hd_dropWhile list.sel(1) list.distinct(1))
  then have "dropWhile (\<lambda>x. \<not> ISSPACE x) (c # cs) = dropWhile (\<lambda>x. \<not> ISSPACE x) cs"
    by simp
  moreover have "length (dropWhile (\<lambda>x. \<not> ISSPACE x) cs) \<le> length cs"
    by (rule length_dropWhile_le)
  moreover have "length (c # cs) \<le> length s"
    using 2 length_dropWhile_le [of ISSPACE s] by simp
  ultimately show ?case
    by simp
qed

declare whitespace_split.simps [simp del]

section \<open>Response files: \<^verbatim>\<open>Flagparse\<close>\<close>

text \<open>
  The operating system, as far as \<^verbatim>\<open>Flagparse\<close> uses it, is a parameter: \<open>Open\<close> is
  \<^verbatim>\<open>os.Open\<close> (an error, or a file), \<open>ReadAll\<close> is \<^verbatim>\<open>ioutil.ReadAll\<close> and \<open>Close\<close> is
  \<^verbatim>\<open>(*os.File).Close\<close>. Both take the \<^verbatim>\<open>*os.File\<close> that \<^verbatim>\<open>os.Open\<close> returned, which is \<^verbatim>\<open>nil\<close>
  (\<open>None\<close>) when the open failed. The file system is taken not to change while the
  arguments are expanded.
\<close>

datatype oserr = ErrNotExist | ErrPermission | ErrInvalid | ErrIO

record 'f os =
  Open :: "string \<Rightarrow> oserr + 'f"
  ReadAll :: "'f option \<Rightarrow> oserr + string"
  Close :: "'f option \<Rightarrow> oserr option"

text \<open>\<^verbatim>\<open>os.IsNotExist(err)\<close>; it is false of the \<^verbatim>\<open>nil\<close> error.\<close>

definition IsNotExist :: "oserr option \<Rightarrow> bool" where
  "IsNotExist err \<longleftrightarrow> err = Some ErrNotExist"

text \<open>
  The three messages of \<^verbatim>\<open>Flagparse\<close>, each with the file name \<^verbatim>\<open>arg[1:]\<close> and the error
  value it formats: the first is written by \<^verbatim>\<open>log.Printf\<close>, the other two by
  \<^verbatim>\<open>log.Fatalf\<close>, which ends the process.
\<close>

datatype message =
  Unable_to_open string "oserr option"
  | Unable_to_read string oserr
  | Unable_to_close string oserr

text \<open>
  The loop over \<^verbatim>\<open>os.Args\<close>, with the list \<^verbatim>\<open>args\<close> built so far and the lines logged so
  far. \<open>Inl\<close> is the process ended by \<^verbatim>\<open>log.Fatalf\<close> with that message; \<open>Inr\<close> is the loop
  left normally.
\<close>

fun expand_args ::
  "'f os \<Rightarrow> string list \<Rightarrow> string list \<Rightarrow> message list \<Rightarrow> message + string list \<times> message list"
where
  "expand_args sys [] args lg = Inr (args, lg)"
| "expand_args sys (a # as) args lg =
     (if \<not> HasPrefix a ''@'' \<or> length a < 1 then expand_args sys as (args @ [a]) lg
      else
        let file = (case Open sys (drop 1 a) of Inl e \<Rightarrow> None | Inr f \<Rightarrow> Some f);
            err = (case Open sys (drop 1 a) of Inl e \<Rightarrow> Some e | Inr f \<Rightarrow> None)
        in if IsNotExist err
           then expand_args sys as (args @ [a]) (lg @ [Unable_to_open (drop 1 a) err])
           else
             (case ReadAll sys file of
                Inl e \<Rightarrow> Inl (Unable_to_read (drop 1 a) e)
              | Inr contents \<Rightarrow>
                  (let args' = foldl (\<lambda>args row. args @ [row]) args (buildargv contents)
                   in case Close sys file of
                        Some e \<Rightarrow> Inl (Unable_to_close (drop 1 a) e)
                      | None \<Rightarrow> expand_args sys as args' lg)))"

text \<open>
  \<^verbatim>\<open>Flagparse\<close> up to the assignment \<^verbatim>\<open>os.Args = args\<close>: the new argument list and the lines
  logged, or the fatal message. (\<^verbatim>\<open>flag.Parse\<close> is not part of the file.)
\<close>

definition Flagparse :: "'f os \<Rightarrow> string list \<Rightarrow> message + string list \<times> message list" where
  "Flagparse sys os_Args = expand_args sys os_Args [] []"

text \<open>
  What the specification says takes the place of one argument: an argument that does not
  begin with \<^verbatim>\<open>@\<close> stays; one that names a file that opens and reads is replaced by the
  tokens of the file's contents; one whose file does not exist stays.
\<close>

definition spliced :: "'f os \<Rightarrow> string \<Rightarrow> string list" where
  "spliced sys a =
     (if HasPrefix a ''@'' then
        (case Open sys (drop 1 a) of
           Inl e \<Rightarrow> [a]
         | Inr f \<Rightarrow> (case ReadAll sys (Some f) of Inl e \<Rightarrow> [a] | Inr contents \<Rightarrow> buildargv contents))
      else [a])"

text \<open>
  A file system for the examples, with natural numbers as files: \<^verbatim>\<open>resp\<close> holds
  \<^verbatim>\<open>-x -y=1\<close>, \<^verbatim>\<open>outer\<close> holds \<^verbatim>\<open>@resp -z\<close>; opening \<^verbatim>\<open>secret\<close> fails with a permission
  error; \<^verbatim>\<open>dir\<close> opens and cannot be read; \<^verbatim>\<open>flaky\<close> opens, holds \<^verbatim>\<open>-q\<close> and fails to close;
  no other file exists. Reading or closing the \<^verbatim>\<open>nil\<close> file fails with \<^verbatim>\<open>ErrInvalid\<close>, as the
  methods of a \<^verbatim>\<open>nil\<close> \<^verbatim>\<open>*os.File\<close> do in Go.
\<close>

definition example_os :: "nat os" where
  "example_os =
     \<lparr>Open = (\<lambda>name.
         if name = ''resp'' then Inr 3
         else if name = ''outer'' then Inr 4
         else if name = ''dir'' then Inr 5
         else if name = ''flaky'' then Inr 6
         else if name = ''secret'' then Inl ErrPermission
         else Inl ErrNotExist),
      ReadAll = (\<lambda>file.
         if file = Some 3 then Inr ''-x -y=1''
         else if file = Some 4 then Inr ''@resp -z''
         else if file = Some 5 then Inl ErrIO
         else if file = Some 6 then Inr ''-q''
         else Inl ErrInvalid),
      Close = (\<lambda>file.
         if file = None then Some ErrInvalid
         else if file = Some 6 then Some ErrIO
         else None)\<rparr>"

section \<open>Flag values\<close>

subsection \<open>\<^verbatim>\<open>count\<close>\<close>

text \<open>
  \<^verbatim>\<open>count\<close> is a Go \<^verbatim>\<open>int\<close>, here of 64 bits as on a 64-bit target: \<^verbatim>\<open>*c++\<close> wraps around.
\<close>

type_synonym count = "64 word"

text \<open>
  Modelled from the spec: \<^verbatim>\<open>strconv.Atoi\<close> is not among the source files. The specification
  says that the input ``is parsed as a base-10 integer''; as in Go, that is an optional
  sign \<^verbatim>\<open>+\<close> or \<^verbatim>\<open>-\<close> followed by one or more decimal digits, with a value in the range of
  \<^verbatim>\<open>int\<close>. \<open>None\<close> is the error.
\<close>

definition digit :: "char \<Rightarrow> nat option" where
  "digit c =
     (let n = (of_char c :: nat) in if 48 \<le> n \<and> n \<le> 57 then Some (n - 48) else None)"

fun digits_value :: "string \<Rightarrow> nat \<Rightarrow> nat option" where
  "digits_value [] acc = Some acc"
| "digits_value (c # cs) acc =
     (case digit c of None \<Rightarrow> None | Some d \<Rightarrow> digits_value cs (10 * acc + d))"

definition Atoi :: "string \<Rightarrow> int option" where
  "Atoi s =
     (let neg = (case s of [] \<Rightarrow> False | c # cs \<Rightarrow> c = CHR ''-'');
          ds = (case s of [] \<Rightarrow> [] | c # cs \<Rightarrow> if c = CHR ''-'' \<or> c = CHR ''+'' then cs else s)
      in if ds = [] then None
         else
           (case digits_value ds 0 of
              None \<Rightarrow> None
            | Some n \<Rightarrow>
                (let v = (if neg then - int n else int n)
                 in if - (2 ^ 63) \<le> v \<and> v < 2 ^ 63 then Some v else None)))"

text \<open>The error of \<^verbatim>\<open>fmt.Errorf("invalid count %q", s)\<close>.\<close>

datatype flag_error = invalid_count string

text \<open>\<^verbatim>\<open>(*count).Set\<close>: the new value of \<^verbatim>\<open>*c\<close> and the error returned (\<open>None\<close> is \<^verbatim>\<open>nil\<close>).\<close>

definition count_Set :: "count \<Rightarrow> string \<Rightarrow> count \<times> flag_error option" where
  "count_Set c s =
     (if s = ''true'' then (c + 1, None)
      else if s = ''false'' then (0, None)
      else
        (case Atoi s of
           None \<Rightarrow> (c, Some (invalid_count s))
         | Some n \<Rightarrow> (word_of_int n, None)))"

subsection \<open>\<^verbatim>\<open>versionFlag\<close>\<close>

text \<open>
  \<^verbatim>\<open>strings.LastIndex(s, substr)\<close>, a function of Go's library that is not among the source
  files: the index of the last instance of \<^verbatim>\<open>substr\<close> in \<^verbatim>\<open>s\<close>, or \<^verbatim>\<open>-1\<close>.
  \<open>last_index_from n\<close> looks at the indices \<open>n\<close>, \<open>n - 1\<close>, \<dots>, \<open>0\<close>.
\<close>

fun last_index_from :: "nat \<Rightarrow> string \<Rightarrow> string \<Rightarrow> int" where
  "last_index_from 0 s substr = (if HasPrefix s substr then 0 else - 1)"
| "last_index_from (Suc n) s substr =
     (if HasPrefix (drop (Suc n) s) substr then int (Suc n) else last_index_from n s substr)"

definition LastIndex :: "string \<Rightarrow> string \<Rightarrow> int" where
  "LastIndex s substr =
     (if length s < length substr then - 1
      else last_index_from (length s - length substr) s substr)"

text \<open>
  What \<^verbatim>\<open>versionFlag.Set\<close> reads from the process: \<^verbatim>\<open>os.Args\<close>, the constant \<^verbatim>\<open>Version\<close>, the
  results of \<^verbatim>\<open>Expstring()\<close> and \<^verbatim>\<open>DefaultExpstring()\<close>, and the variable \<^verbatim>\<open>buildID\<close> that the
  linker fills in. None of them is defined in the file, so they are parameters.
\<close>

record process =
  os_Args :: "string list"
  Version :: string
  Expstring :: string
  DefaultExpstring :: string
  buildID :: string

text \<open>
  How a call of \<^verbatim>\<open>versionFlag.Set\<close> ends: \<^verbatim>\<open>os.Args[0]\<close> panics when \<^verbatim>\<open>os.Args\<close> is empty;
  otherwise the line is printed and \<^verbatim>\<open>os.Exit(0)\<close> ends the process, so that the
  \<^verbatim>\<open>return nil\<close> is never reached.
\<close>

datatype ending = Panic_index_out_of_range | Exit int string

text \<open>The three assignments to \<^verbatim>\<open>name\<close> after \<^verbatim>\<open>name := os.Args[0]\<close>.\<close>

definition program_name :: "string \<Rightarrow> string" where
  "program_name name0 =
     (let name1 = drop (nat (LastIndex name0 ''/'' + 1)) name0;
          name2 = drop (nat (LastIndex name1 [CHR 0x5C] + 1)) name1
      in TrimSuffix name2 ''.exe'')"

definition versionFlag_Set :: "process \<Rightarrow> string \<Rightarrow> ending" where
  "versionFlag_Set pr s =
     (case os_Args pr of
        [] \<Rightarrow> Panic_index_out_of_range
      | name0 # _ \<Rightarrow>
          (let name = program_name name0;
               p = (if Expstring pr = DefaultExpstring pr then [] else Expstring pr);
               sep = (if p \<noteq> [] then '' '' else []);
               p' = (if s = ''full'' \<and> HasPrefix (Version pr) ''devel''
                     then p @ '' buildID='' @ buildID pr else p)
           in Exit 0 (name @ '' version '' @ Version pr @ sep @ p' @ [CHR 0x0A])))"

text \<open>A process for the examples.\<close>

definition example_process :: process where
  "example_process =
     \<lparr>os_Args = [''/usr/local/bin/tool.exe'', ''-V=full''], Version = ''devel +abc123'',
      Expstring = ''X:framepointer'', DefaultExpstring = ''X:framepointer'', buildID = ''ID42''\<rparr>"

section \<open>Properties of the tokenizer\<close>

subsection \<open>Bytes that are copied, and buffers without quotes and backslashes\<close>

lemma string_of_byte_ascii: "(of_char c :: nat) < 128 \<Longrightarrow> string_of_byte c = [c]"
  by (simp add: string_of_byte_def)

lemma string_of_bytes_ascii: "\<forall>c\<in>set w. (of_char c :: nat) < 128 \<Longrightarrow> string_of_bytes w = w"
  by (induction w) (simp_all add: string_of_bytes_def string_of_byte_ascii)

lemma string_of_bytes_simps:
  "string_of_bytes [] = []"
  "string_of_bytes (c # w) = string_of_byte c @ string_of_bytes w"
  "string_of_bytes (u @ w) = string_of_bytes u @ string_of_bytes w"
  by (simp_all add: string_of_bytes_def)

lemma ISSPACE_ascii: "ISSPACE c \<Longrightarrow> string_of_byte c = [c]"
  by (auto simp: ISSPACE_def string_of_byte_def)

lemma consume_whitespace_dropWhile: "consume_whitespace xs = dropWhile ISSPACE xs"
  by (induction xs) auto

lemma scan_arg_unquoted:
  "\<not> squote st \<Longrightarrow> \<not> dquote st \<Longrightarrow> \<not> bsquote st \<Longrightarrow>
   CHR 0x27 \<notin> set xs \<Longrightarrow> CHR 0x22 \<notin> set xs \<Longrightarrow> CHR 0x5C \<notin> set xs \<Longrightarrow>
   scan_arg xs st =
     (dropWhile (\<lambda>x. \<not> ISSPACE x) xs,
      st\<lparr>arg := arg st @ string_of_bytes (takeWhile (\<lambda>x. \<not> ISSPACE x) xs)\<rparr>)"
proof (induction xs arbitrary: st)
  case Nil
  then show ?case by (simp add: string_of_bytes_simps)
next
  case (Cons c cs)
  show ?case
  proof (cases "ISSPACE c")
    case True
    with Cons.prems show ?thesis
      by (simp add: at_break_def string_of_bytes_simps)
  next
    case False
    let ?st = "st\<lparr>arg := arg st @ string_of_byte c\<rparr>"
    from Cons.prems have step: "scan_byte c st = ?st"
      by (auto simp: scan_byte_def)
    have "scan_arg cs ?st =
      (dropWhile (\<lambda>x. \<not> ISSPACE x) cs,
       ?st\<lparr>arg := arg ?st @ string_of_bytes (takeWhile (\<lambda>x. \<not> ISSPACE x) cs)\<rparr>)"
      using Cons.prems by (intro Cons.IH) simp_all
    with False step show ?thesis
      by (simp add: at_break_def string_of_bytes_simps)
  qed
qed

lemma scan_arg_in_squote:
  "squote st \<Longrightarrow> \<not> bsquote st \<Longrightarrow> CHR 0x27 \<notin> set w \<Longrightarrow> CHR 0x5C \<notin> set w \<Longrightarrow>
   scan_arg (w @ rest) st = scan_arg rest (st\<lparr>arg := arg st @ string_of_bytes w\<rparr>)"
proof (induction w arbitrary: st)
  case Nil
  then show ?case by (simp add: string_of_bytes_simps)
next
  case (Cons c w)
  let ?st = "st\<lparr>arg := arg st @ string_of_byte c\<rparr>"
  from Cons.prems have step: "scan_byte c st = ?st" and nb: "\<not> at_break c st"
    by (auto simp: scan_byte_def at_break_def)
  have "scan_arg (w @ rest) ?st = scan_arg rest (?st\<lparr>arg := arg ?st @ string_of_bytes w\<rparr>)"
    using Cons.prems by (intro Cons.IH) simp_all
  with step nb show ?case
    by (simp add: string_of_bytes_simps)
qed

lemma scan_arg_in_dquote:
  "dquote st \<Longrightarrow> \<not> squote st \<Longrightarrow> \<not> bsquote st \<Longrightarrow> CHR 0x22 \<notin> set w \<Longrightarrow> CHR 0x5C \<notin> set w \<Longrightarrow>
   scan_arg (w @ rest) st = scan_arg rest (st\<lparr>arg := arg st @ string_of_bytes w\<rparr>)"
proof (induction w arbitrary: st)
  case Nil
  then show ?case by (simp add: string_of_bytes_simps)
next
  case (Cons c w)
  let ?st = "st\<lparr>arg := arg st @ string_of_byte c\<rparr>"
  from Cons.prems have step: "scan_byte c st = ?st" and nb: "\<not> at_break c st"
    by (auto simp: scan_byte_def at_break_def)
  have "scan_arg (w @ rest) ?st = scan_arg rest (?st\<lparr>arg := arg ?st @ string_of_bytes w\<rparr>)"
    using Cons.prems by (intro Cons.IH) simp_all
  with step nb show ?case
    by (simp add: string_of_bytes_simps)
qed

lemma whitespace_split_dropWhile:
  "whitespace_split (dropWhile ISSPACE s) = whitespace_split s"
  by (simp add: whitespace_split.simps [of "dropWhile ISSPACE s"] whitespace_split.simps [of s])

lemma whitespace_split_Cons:
  "\<not> ISSPACE c \<Longrightarrow>
   whitespace_split (c # cs) =
     (c # takeWhile (\<lambda>x. \<not> ISSPACE x) cs) # whitespace_split (dropWhile (\<lambda>x. \<not> ISSPACE x) cs)"
  by (simp add: whitespace_split.simps [of "c # cs"])

lemma whitespace_split_Nil: "whitespace_split [] = []"
  by (simp add: whitespace_split.simps [of "[]"])

lemma arg_loop_plain:
  "\<not> squote st \<Longrightarrow> \<not> dquote st \<Longrightarrow> \<not> bsquote st \<Longrightarrow>
   CHR 0x27 \<notin> set xs \<Longrightarrow> CHR 0x22 \<notin> set xs \<Longrightarrow> CHR 0x5C \<notin> set xs \<Longrightarrow>
   xs = [] \<or> \<not> ISSPACE (hd xs) \<Longrightarrow>
   result (arg_loop xs st) = result st @ map string_of_bytes (whitespace_split xs)"
proof (induction xs st rule: arg_loop.induct)
  case (1 st)
  then show ?case by (simp add: whitespace_split_Nil)
next
  case (2 c cs st)
  let ?st0 = "st\<lparr>arg := []\<rparr>"
  let ?w = "takeWhile (\<lambda>x. \<not> ISSPACE x) (c # cs)"
  let ?rest = "dropWhile (\<lambda>x. \<not> ISSPACE x) (c # cs)"
  let ?st1 = "?st0\<lparr>arg := arg ?st0 @ string_of_bytes ?w\<rparr>"
  let ?st2 = "?st1\<lparr>result := result ?st1 @ [arg ?st1]\<rparr>"
  have sc: "scan_arg (c # cs) ?st0 = (?rest, ?st1)"
    using "2.prems" by (intro scan_arg_unquoted) simp_all
  have sub: "set (consume_whitespace ?rest) \<subseteq> set (c # cs)"
    unfolding consume_whitespace_dropWhile
    by (meson set_dropWhileD subsetI)
  have hd: "consume_whitespace ?rest = [] \<or> \<not> ISSPACE (hd (consume_whitespace ?rest))"
    unfolding consume_whitespace_dropWhile
    by (metis hd_dropWhile)
  have "result (arg_loop (consume_whitespace ?rest) ?st2)
          = result ?st2 @ map string_of_bytes (whitespace_split (consume_whitespace ?rest))"
    using "2.prems" sub hd
    by (intro "2.IH" [OF sc [symmetric]]) auto
  moreover have "whitespace_split (consume_whitespace ?rest) = whitespace_split ?rest"
    by (simp only: consume_whitespace_dropWhile whitespace_split_dropWhile)
  moreover have "\<not> ISSPACE c"
    using "2.prems" by simp
  ultimately show ?case
    using sc by (simp add: whitespace_split_Cons)
qed

lemma buildargv_plain:
  assumes "CHR 0x27 \<notin> set data" "CHR 0x22 \<notin> set data" "CHR 0x5C \<notin> set data"
  shows "buildargv data = map string_of_bytes (whitespace_split data)"
proof -
  let ?di = "consume_whitespace data"
  have sub: "set ?di \<subseteq> set data"
    unfolding consume_whitespace_dropWhile by (meson set_dropWhileD subsetI)
  have hd: "?di = [] \<or> \<not> ISSPACE (hd ?di)"
    unfolding consume_whitespace_dropWhile by (metis hd_dropWhile)
  have ws: "whitespace_split ?di = whitespace_split data"
    by (simp only: consume_whitespace_dropWhile whitespace_split_dropWhile)
  show ?thesis
  proof (cases "?di = []")
    case True
    then have "whitespace_split ?di = []"
      by (simp add: whitespace_split_Nil)
    with True ws show ?thesis
      by (simp add: buildargv_def)
  next
    case False
    have "result (arg_loop ?di scanner_init)
            = result scanner_init @ map string_of_bytes (whitespace_split ?di)"
      using assms sub hd by (intro arg_loop_plain) (auto simp: scanner_init_def)
    with False ws show ?thesis
      by (simp add: buildargv_def Let_def scanner_init_def)
  qed
qed

lemma whitespace_split_unfold_Nil:
  "dropWhile ISSPACE s = [] \<Longrightarrow> whitespace_split s = []"
  by (simp only: whitespace_split.simps [of s] list.case)

lemma whitespace_split_unfold_Cons:
  "dropWhile ISSPACE s = c # cs \<Longrightarrow>
   whitespace_split s =
     takeWhile (\<lambda>x. \<not> ISSPACE x) (c # cs)
       # whitespace_split (dropWhile (\<lambda>x. \<not> ISSPACE x) (c # cs))"
  by (simp only: whitespace_split.simps [of s] list.case)

lemma set_concat_whitespace_split: "set (concat (whitespace_split s)) \<subseteq> set s"
proof (induction s rule: whitespace_split.induct)
  case (1 s)
  show ?case
  proof (cases "dropWhile ISSPACE s")
    case Nil
    then show ?thesis
      by (simp only: whitespace_split_unfold_Nil) simp
  next
    case (Cons c cs)
    have a: "set (takeWhile (\<lambda>x. \<not> ISSPACE x) (c # cs)) \<subseteq> set s"
      by (metis Cons set_dropWhileD set_takeWhileD subsetI)
    have "set (concat (whitespace_split (dropWhile (\<lambda>x. \<not> ISSPACE x) (c # cs))))
            \<subseteq> set (dropWhile (\<lambda>x. \<not> ISSPACE x) (c # cs))"
      using "1.IH" Cons by simp
    also have "\<dots> \<subseteq> set (c # cs)"
      by (meson set_dropWhileD subsetI)
    also have "\<dots> \<subseteq> set s"
      by (metis Cons set_dropWhileD subsetI)
    finally have b: "set (concat (whitespace_split (dropWhile (\<lambda>x. \<not> ISSPACE x) (c # cs))))
            \<subseteq> set s" .
    have "set (concat (whitespace_split s)) =
            set (takeWhile (\<lambda>x. \<not> ISSPACE x) (c # cs))
              \<union> set (concat (whitespace_split (dropWhile (\<lambda>x. \<not> ISSPACE x) (c # cs))))"
      by (simp only: whitespace_split_unfold_Cons [OF Cons] concat.simps set_append)
    with a b show ?thesis
      by blast
  qed
qed

text \<open>
  So on a buffer without quotes and backslashes whose bytes are all below 0x80 the tokens
  are the whitespace-split words.
\<close>

lemma buildargv_plain_ascii:
  assumes "CHR 0x27 \<notin> set data" "CHR 0x22 \<notin> set data" "CHR 0x5C \<notin> set data"
    and "\<forall>c\<in>set data. (of_char c :: nat) < 128"
  shows "buildargv data = whitespace_split data"
proof -
  have "map string_of_bytes (whitespace_split data) = whitespace_split data"
  proof (rule map_idI)
    fix w
    assume "w \<in> set (whitespace_split data)"
    then have "set w \<subseteq> set (concat (whitespace_split data))"
      by auto
    with set_concat_whitespace_split [of data] assms(4) have "\<forall>c\<in>set w. (of_char c :: nat) < 128"
      by blast
    then show "string_of_bytes w = w"
      by (rule string_of_bytes_ascii)
  qed
  with buildargv_plain [OF assms(1-3)] show ?thesis
    by simp
qed

subsection \<open>Claim C1\<close>

text \<open>
  C1 says that for every buffer without single quotes, double quotes and backslashes
  \<^verbatim>\<open>buildargv\<close> returns exactly the maximal runs of non-whitespace bytes of the buffer. The
  code appends \<^verbatim>\<open>string(data[di])\<close>, the UTF-8 encoding of the byte read as a code point, so
  a byte from 0x80 on comes out as two bytes: the one-byte buffer 0xE9 has the single
  whitespace-split word 0xE9, and \<^verbatim>\<open>buildargv\<close> returns the two-byte argument 0xC3 0xA9.
  (On buffers of bytes below 0x80 the claim holds, by \<open>buildargv_plain_ascii\<close>.)
\<close>

theorem buildargv_reencodes_high_byte:
  "buildargv [CHR 0xE9] = [[CHR 0xC3, CHR 0xA9]] \<and> whitespace_split [CHR 0xE9] = [[CHR 0xE9]]"
  by code_simp

subsection \<open>The backslash\<close>

lemma scan_byte_escaped:
  "bsquote st \<Longrightarrow> scan_byte c st = st\<lparr>bsquote := False, arg := arg st @ string_of_byte c\<rparr>"
  by (simp add: scan_byte_def)

lemma scan_byte_backslash:
  "\<not> bsquote st \<Longrightarrow> scan_byte (CHR 0x5C) st = st\<lparr>bsquote := True\<rparr>"
  by (simp add: scan_byte_def)

lemma not_at_break_escaped: "bsquote st \<Longrightarrow> \<not> at_break c st"
  by (simp add: at_break_def)

lemma scan_arg_escape:
  "\<not> bsquote st \<Longrightarrow>
   scan_arg (CHR 0x5C # c # rest) st = scan_arg rest (st\<lparr>arg := arg st @ string_of_byte c\<rparr>)"
proof -
  assume nb: "\<not> bsquote st"
  have "\<not> at_break (CHR 0x5C) st"
    by (simp add: at_break_def ISSPACE_def)
  moreover have "\<not> at_break c (st\<lparr>bsquote := True\<rparr>)"
    by (simp add: at_break_def)
  moreover have "scan_byte c (st\<lparr>bsquote := True\<rparr>) = st\<lparr>arg := arg st @ string_of_byte c\<rparr>"
    using nb by (cases st) (simp add: scan_byte_def)
  ultimately show ?thesis
    using nb by (simp add: scan_byte_backslash)
qed

lemma buildargv_escaped_space:
  "buildargv [CHR ''a'', CHR 0x5C, CHR '' '', CHR ''b''] = [''a b'']"
  by code_simp

subsection \<open>Claim C4\<close>

text \<open>
  C4 says that a backslash that is not itself escaped is never appended, and that it makes the
  byte that follows it, any byte, be appended literally. The backslash is indeed dropped and
  the byte after it is appended without being read as a quote, a backslash or a separator
  (\<open>scan_arg_escape\<close>, and \<open>buildargv_escaped_space\<close> for the claim's example), but what is
  appended is \<^verbatim>\<open>string(data[di])\<close>: for the two-byte buffer backslash, 0xE9 the argument is
  the two bytes 0xC3 0xA9 and not the byte 0xE9.
\<close>

theorem buildargv_escape_reencodes_high_byte:
  "buildargv [CHR 0x5C, CHR 0xE9] = [[CHR 0xC3, CHR 0xA9]]"
  by code_simp

subsection \<open>Quotes\<close>

lemma scan_arg_squote_toggle:
  "\<not> bsquote st \<Longrightarrow> \<not> dquote st \<Longrightarrow>
   scan_arg (CHR 0x27 # cs) st = scan_arg cs (st\<lparr>squote := \<not> squote st\<rparr>)"
  by (simp add: at_break_def ISSPACE_def scan_byte_def)

lemma scan_arg_dquote_toggle:
  "\<not> bsquote st \<Longrightarrow> \<not> squote st \<Longrightarrow>
   scan_arg (CHR 0x22 # cs) st = scan_arg cs (st\<lparr>dquote := \<not> dquote st\<rparr>)"
  by (simp add: at_break_def ISSPACE_def scan_byte_def)

lemma scan_arg_quoted_space:
  assumes "squote st \<or> dquote st" and "ISSPACE c"
  shows "scan_arg (c # cs) st = scan_arg cs (st\<lparr>bsquote := False, arg := arg st @ [c]\<rparr>)"
proof -
  have nb: "\<not> at_break c st"
    using assms(1) by (auto simp: at_break_def)
  have c: "c \<noteq> CHR 0x5C" "c \<noteq> CHR 0x27" "c \<noteq> CHR 0x22"
    using assms(2) by (auto simp: ISSPACE_def)
  have "scan_byte c st = st\<lparr>bsquote := False, arg := arg st @ [c]\<rparr>"
    using assms(1) c by (cases st) (auto simp: scan_byte_def ISSPACE_ascii [OF assms(2)])
  with nb show ?thesis
    by simp
qed

subsection \<open>Claim C5\<close>

text \<open>
  C5: a single quote that is not escaped, met outside double-quote mode, is consumed
  without being appended and toggles single-quote mode, and the scan of the argument goes
  on; the same for a double quote outside single-quote mode; while either quote mode is on,
  a whitespace byte does not end the argument and is appended as it is; and the buffer
  \<^verbatim>\<open>a 'b c' d\<close> gives the arguments \<^verbatim>\<open>a\<close>, \<^verbatim>\<open>b c\<close>, \<^verbatim>\<open>d\<close>.
\<close>

theorem buildargv_quotes:
  "(\<not> bsquote st \<and> \<not> dquote st \<longrightarrow>
      scan_arg (CHR 0x27 # cs) st = scan_arg cs (st\<lparr>squote := \<not> squote st\<rparr>))
   \<and> (\<not> bsquote st \<and> \<not> squote st \<longrightarrow>
      scan_arg (CHR 0x22 # cs) st = scan_arg cs (st\<lparr>dquote := \<not> dquote st\<rparr>))
   \<and> ((squote st \<or> dquote st) \<and> ISSPACE c \<longrightarrow>
      scan_arg (c # cs) st = scan_arg cs (st\<lparr>bsquote := False, arg := arg st @ [c]\<rparr>))
   \<and> buildargv ''a 'b c' d'' = [''a'', ''b c'', ''d'']"
proof -
  have "buildargv ''a 'b c' d'' = [''a'', ''b c'', ''d'']"
    by code_simp
  then show ?thesis
    using scan_arg_squote_toggle [of st cs] scan_arg_dquote_toggle [of st cs]
      scan_arg_quoted_space [of st c cs]
    by blast
qed

theorem buildargv_quotes_witness:
  "scan_arg (CHR 0x27 # ''b c'') scanner_init = scan_arg ''b c'' (scanner_init\<lparr>squote := True\<rparr>)
   \<and> scan_arg (CHR 0x22 # ''b c'') scanner_init = scan_arg ''b c'' (scanner_init\<lparr>dquote := True\<rparr>)
   \<and> scan_arg '' c'' (scanner_init\<lparr>squote := True\<rparr>)
       = scan_arg ''c'' (scanner_init\<lparr>squote := True, bsquote := False, arg := '' ''\<rparr>)"
  using buildargv_quotes [of scanner_init "''b c''" "CHR '' ''"]
    buildargv_quotes [of "scanner_init\<lparr>squote := True\<rparr>" "''c''" "CHR '' ''"]
  by (simp add: scanner_init_def ISSPACE_def)

subsection \<open>The last argument\<close>

lemma arg_loop_emits:
  "xs \<noteq> [] \<or> (result st \<noteq> [] \<and> last (result st) = arg st) \<Longrightarrow>
   result (arg_loop xs st) \<noteq> [] \<and> last (result (arg_loop xs st)) = arg (arg_loop xs st)"
proof (induction xs st rule: arg_loop.induct)
  case (1 st)
  then show ?case by simp
next
  case (2 c cs st)
  obtain rest st' where sc: "scan_arg (c # cs) (st\<lparr>arg := []\<rparr>) = (rest, st')"
    by (cases "scan_arg (c # cs) (st\<lparr>arg := []\<rparr>)")
  let ?st2 = "st'\<lparr>result := result st' @ [arg st']\<rparr>"
  have "result (arg_loop (consume_whitespace rest) ?st2) \<noteq> []
        \<and> last (result (arg_loop (consume_whitespace rest) ?st2))
            = arg (arg_loop (consume_whitespace rest) ?st2)"
    by (rule "2.IH" [OF sc [symmetric]]) simp
  with sc show ?case
    by simp
qed

lemma consume_whitespace_eq_Nil: "consume_whitespace data = [] \<longleftrightarrow> (\<forall>c\<in>set data. ISSPACE c)"
  by (simp add: consume_whitespace_dropWhile dropWhile_eq_Nil_conv)

lemma buildargv_last:
  assumes "consume_whitespace data \<noteq> []"
  shows "buildargv data \<noteq> []"
    and "last (buildargv data) = arg (arg_loop (consume_whitespace data) scanner_init)"
  using assms arg_loop_emits [of "consume_whitespace data" scanner_init]
  by (simp_all add: buildargv_def)

lemma arg_loop_single:
  "xs \<noteq> [] \<Longrightarrow> scan_arg xs (st\<lparr>arg := []\<rparr>) = ([], st') \<Longrightarrow>
   arg_loop xs st = st'\<lparr>result := result st' @ [arg st']\<rparr>"
  by (cases xs) simp_all

lemma buildargv_open_squote:
  assumes "CHR 0x27 \<notin> set w" "CHR 0x5C \<notin> set w"
  shows "buildargv (CHR 0x27 # w) = [string_of_bytes w]"
proof -
  let ?st1 = "scanner_init\<lparr>arg := [], squote := True\<rparr>"
  have "scan_arg (CHR 0x27 # w) (scanner_init\<lparr>arg := []\<rparr>) = scan_arg (w @ []) ?st1"
    by (simp add: scanner_init_def at_break_def scan_byte_def ISSPACE_def)
  also have "\<dots> = scan_arg [] (?st1\<lparr>arg := arg ?st1 @ string_of_bytes w\<rparr>)"
    using assms by (intro scan_arg_in_squote) (simp_all add: scanner_init_def)
  finally have "scan_arg (CHR 0x27 # w) (scanner_init\<lparr>arg := []\<rparr>)
                  = ([], ?st1\<lparr>arg := string_of_bytes w\<rparr>)"
    by (simp add: scanner_init_def)
  then show ?thesis
    by (simp add: buildargv_def ISSPACE_def scanner_init_def)
qed

lemma buildargv_open_dquote:
  assumes "CHR 0x22 \<notin> set w" "CHR 0x5C \<notin> set w"
  shows "buildargv (CHR 0x22 # w) = [string_of_bytes w]"
proof -
  let ?st1 = "scanner_init\<lparr>arg := [], dquote := True\<rparr>"
  have "scan_arg (CHR 0x22 # w) (scanner_init\<lparr>arg := []\<rparr>) = scan_arg (w @ []) ?st1"
    by (simp add: scanner_init_def at_break_def scan_byte_def ISSPACE_def)
  also have "\<dots> = scan_arg [] (?st1\<lparr>arg := arg ?st1 @ string_of_bytes w\<rparr>)"
    using assms by (intro scan_arg_in_dquote) (simp_all add: scanner_init_def)
  finally have "scan_arg (CHR 0x22 # w) (scanner_init\<lparr>arg := []\<rparr>)
                  = ([], ?st1\<lparr>arg := string_of_bytes w\<rparr>)"
    by (simp add: scanner_init_def)
  then show ?thesis
    by (simp add: buildargv_def ISSPACE_def scanner_init_def)
qed

lemma scan_arg_word:
  "\<not> squote st \<Longrightarrow> \<not> dquote st \<Longrightarrow> \<not> bsquote st \<Longrightarrow>
   \<forall>c\<in>set w. \<not> ISSPACE c \<and> c \<noteq> CHR 0x27 \<and> c \<noteq> CHR 0x22 \<and> c \<noteq> CHR 0x5C \<Longrightarrow>
   scan_arg (w @ rest) st = scan_arg rest (st\<lparr>arg := arg st @ string_of_bytes w\<rparr>)"
proof (induction w arbitrary: st)
  case Nil
  then show ?case by (simp add: string_of_bytes_simps)
next
  case (Cons c w)
  let ?st = "st\<lparr>arg := arg st @ string_of_byte c\<rparr>"
  from Cons.prems have step: "scan_byte c st = ?st" and nb: "\<not> at_break c st"
    by (auto simp: scan_byte_def at_break_def)
  have "scan_arg (w @ rest) ?st = scan_arg rest (?st\<lparr>arg := arg ?st @ string_of_bytes w\<rparr>)"
    using Cons.prems by (intro Cons.IH) simp_all
  with step nb show ?case
    by (simp add: string_of_bytes_simps)
qed

lemma buildargv_trailing_backslash:
  assumes "\<forall>c\<in>set w. \<not> ISSPACE c \<and> c \<noteq> CHR 0x27 \<and> c \<noteq> CHR 0x22 \<and> c \<noteq> CHR 0x5C"
  shows "buildargv (w @ [CHR 0x5C]) = [string_of_bytes w]"
proof -
  let ?st0 = "scanner_init\<lparr>arg := []\<rparr>"
  have "scan_arg (w @ [CHR 0x5C]) ?st0 = scan_arg [CHR 0x5C] (?st0\<lparr>arg := arg ?st0 @ string_of_bytes w\<rparr>)"
    using assms by (intro scan_arg_word) (simp_all add: scanner_init_def)
  also have "\<dots> = ([], ?st0\<lparr>arg := string_of_bytes w, bsquote := True\<rparr>)"
    by (simp add: scanner_init_def at_break_def scan_byte_def ISSPACE_def)
  finally have sc: "scan_arg (w @ [CHR 0x5C]) ?st0 = ([], ?st0\<lparr>arg := string_of_bytes w, bsquote := True\<rparr>)" .
  have "\<forall>c\<in>set (w @ [CHR 0x5C]). \<not> ISSPACE c"
    using assms by (simp add: ISSPACE_def)
  then have cw: "consume_whitespace (w @ [CHR 0x5C]) = w @ [CHR 0x5C]"
    unfolding consume_whitespace_dropWhile by (cases w) simp_all
  have "result (arg_loop (w @ [CHR 0x5C]) scanner_init) = [string_of_bytes w]"
    by (subst arg_loop_single [OF _ sc]) (simp_all add: scanner_init_def)
  then show ?thesis
    unfolding buildargv_def cw by simp
qed

subsection \<open>Claim C8\<close>

text \<open>
  C8: \<^verbatim>\<open>buildargv\<close> has no error result, and a buffer that ends inside a quote or after a
  backslash still gives its last argument. Whenever the buffer has a byte that is not
  whitespace, the result is not empty and its last element is \<^verbatim>\<open>arg\<close> as it stands when the
  loops are left, whatever the three parsing states are then. A buffer that opens a quote
  and never closes it is one argument, everything after the quote; a word followed by a
  lone backslash is that word. The three examples end with \<^verbatim>\<open>squote\<close>, \<^verbatim>\<open>dquote\<close> and
  \<^verbatim>\<open>bsquote\<close> set.
\<close>

theorem buildargv_permissive:
  "(consume_whitespace data \<noteq> [] \<longrightarrow>
      buildargv data \<noteq> []
      \<and> last (buildargv data) = arg (arg_loop (consume_whitespace data) scanner_init))
   \<and> (CHR 0x27 \<notin> set w \<and> CHR 0x5C \<notin> set w \<longrightarrow>
        buildargv (CHR 0x27 # w) = [string_of_bytes w])
   \<and> (CHR 0x22 \<notin> set w \<and> CHR 0x5C \<notin> set w \<longrightarrow>
        buildargv (CHR 0x22 # w) = [string_of_bytes w])
   \<and> ((\<forall>c\<in>set w. \<not> ISSPACE c \<and> c \<noteq> CHR 0x27 \<and> c \<noteq> CHR 0x22 \<and> c \<noteq> CHR 0x5C) \<longrightarrow>
        buildargv (w @ [CHR 0x5C]) = [string_of_bytes w])
   \<and> buildargv ''a 'b c'' = [''a'', ''b c'']
   \<and> squote (arg_loop ''a 'b c'' scanner_init)
   \<and> buildargv (''a '' @ CHR 0x22 # ''b c'') = [''a'', ''b c'']
   \<and> dquote (arg_loop (''a '' @ CHR 0x22 # ''b c'') scanner_init)
   \<and> buildargv (''a b'' @ [CHR 0x5C]) = [''a'', ''b'']
   \<and> bsquote (arg_loop (''a b'' @ [CHR 0x5C]) scanner_init)"
proof -
  have ex1: "buildargv ''a 'b c'' = [''a'', ''b c'']"
    by code_simp
  have ex2: "squote (arg_loop ''a 'b c'' scanner_init)"
    by code_simp
  have ex3: "buildargv (''a '' @ CHR 0x22 # ''b c'') = [''a'', ''b c'']"
    by code_simp
  have ex4: "dquote (arg_loop (''a '' @ CHR 0x22 # ''b c'') scanner_init)"
    by code_simp
  have ex5: "buildargv (''a b'' @ [CHR 0x5C]) = [''a'', ''b'']"
    by code_simp
  have ex6: "bsquote (arg_loop (''a b'' @ [CHR 0x5C]) scanner_init)"
    by code_simp
  show ?thesis
    using buildargv_last [of data] buildargv_open_squote [of w] buildargv_open_dquote [of w]
      buildargv_trailing_backslash [of w] ex1 ex2 ex3 ex4 ex5 ex6
    by blast
qed

theorem buildargv_permissive_witness:
  "buildargv ''x 'y z'' \<noteq> []
   \<and> last (buildargv ''x 'y z'') = arg (arg_loop ''x 'y z'' scanner_init)
   \<and> buildargv (CHR 0x27 # ''y z'') = [''y z'']
   \<and> buildargv (CHR 0x22 # ''y z'') = [''y z'']
   \<and> buildargv (''yz'' @ [CHR 0x5C]) = [''yz'']"
  using buildargv_permissive [of "''x 'y z''" "''y z''"] buildargv_permissive [of "''x 'y z''" "''yz''"]
  by (simp add: ISSPACE_def string_of_bytes_def string_of_byte_def)

subsection \<open>Claim C10\<close>

text \<open>
  C10: a buffer with at least one byte that is not whitespace gives at least one argument,
  and an argument may be empty: two single quotes give one empty argument, and so does a
  lone backslash, while the empty buffer and a buffer of whitespace give no argument.
\<close>

theorem buildargv_nonempty:
  "((\<exists>c\<in>set data. \<not> ISSPACE c) \<longrightarrow> buildargv data \<noteq> [])
   \<and> ((\<forall>c\<in>set data. ISSPACE c) \<longrightarrow> buildargv data = [])
   \<and> buildargv [CHR 0x27, CHR 0x27] = [[]]
   \<and> buildargv [CHR 0x5C] = [[]]
   \<and> buildargv [] = []
   \<and> buildargv [CHR '' '', CHR 0x09, CHR 0x0A, CHR 0x0B, CHR 0x0C, CHR 0x0D] = []"
proof -
  have a: "(\<exists>c\<in>set data. \<not> ISSPACE c) \<longrightarrow> buildargv data \<noteq> []"
    using buildargv_last(1) [of data] consume_whitespace_eq_Nil [of data] by blast
  have b: "(\<forall>c\<in>set data. ISSPACE c) \<longrightarrow> buildargv data = []"
    using consume_whitespace_eq_Nil [of data] by (simp add: buildargv_def)
  have c: "buildargv [CHR 0x27, CHR 0x27] = [[]]" "buildargv [CHR 0x5C] = [[]]" "buildargv [] = []"
    "buildargv [CHR '' '', CHR 0x09, CHR 0x0A, CHR 0x0B, CHR 0x0C, CHR 0x0D] = []"
    by code_simp+
  from a b c show ?thesis
    by blast
qed

theorem buildargv_nonempty_witness:
  "buildargv '' x'' \<noteq> [] \<and> buildargv [CHR '' '', CHR 0x09] = []"
  using buildargv_nonempty [of "'' x''"] buildargv_nonempty [of "[CHR '' '', CHR 0x09]"]
  by (simp add: ISSPACE_def)

subsection \<open>The two quote modes\<close>

lemma scan_byte_exclusive:
  "\<not> (squote st \<and> dquote st) \<Longrightarrow> \<not> (squote (scan_byte c st) \<and> dquote (scan_byte c st))"
  by (auto simp: scan_byte_def)

lemma scan_byte_enters_squote:
  "\<not> squote st \<Longrightarrow> squote (scan_byte c st) \<Longrightarrow> \<not> dquote st \<and> \<not> bsquote st \<and> c = CHR 0x27"
  by (auto simp: scan_byte_def split: if_splits)

lemma scan_byte_enters_dquote:
  "\<not> dquote st \<Longrightarrow> dquote (scan_byte c st) \<Longrightarrow> \<not> squote st \<and> \<not> bsquote st \<and> c = CHR 0x22"
  by (auto simp: scan_byte_def split: if_splits)

lemma scan_arg_exclusive:
  "\<not> (squote st \<and> dquote st) \<Longrightarrow>
   \<not> (squote (snd (scan_arg xs st)) \<and> dquote (snd (scan_arg xs st)))"
proof (induction xs arbitrary: st)
  case Nil
  then show ?case by simp
next
  case (Cons c cs)
  show ?case
  proof (cases "at_break c st")
    case True
    with Cons.prems show ?thesis by simp
  next
    case False
    with Cons.IH [OF scan_byte_exclusive [OF Cons.prems]] show ?thesis by simp
  qed
qed

lemma scan_arg_states_exclusive:
  "\<not> (squote st \<and> dquote st) \<Longrightarrow>
   \<forall>s\<in>set (scan_arg_states xs st). \<not> (squote s \<and> dquote s)"
proof (induction xs arbitrary: st)
  case Nil
  then show ?case by simp
next
  case (Cons c cs)
  show ?case
  proof (cases "at_break c st")
    case True
    then show ?thesis by simp
  next
    case False
    with Cons.IH [OF scan_byte_exclusive [OF Cons.prems]] scan_byte_exclusive [OF Cons.prems]
    show ?thesis by simp
  qed
qed

lemma arg_loop_states_exclusive:
  "\<not> (squote st \<and> dquote st) \<Longrightarrow>
   \<forall>s\<in>set (arg_loop_states xs st). \<not> (squote s \<and> dquote s)"
proof (induction xs st rule: arg_loop_states.induct)
  case (1 st)
  then show ?case by simp
next
  case (2 c cs st)
  let ?st0 = "st\<lparr>arg := []\<rparr>"
  obtain rest st' where sc: "scan_arg (c # cs) ?st0 = (rest, st')"
    by (cases "scan_arg (c # cs) ?st0")
  let ?st2 = "st'\<lparr>result := result st' @ [arg st']\<rparr>"
  have i0: "\<not> (squote ?st0 \<and> dquote ?st0)"
    using "2.prems" by simp
  have "\<not> (squote (snd (scan_arg (c # cs) ?st0)) \<and> dquote (snd (scan_arg (c # cs) ?st0)))"
    by (rule scan_arg_exclusive [OF i0])
  then have i2: "\<not> (squote ?st2 \<and> dquote ?st2)"
    unfolding sc by simp
  have a: "\<forall>s\<in>set (scan_arg_states (c # cs) ?st0). \<not> (squote s \<and> dquote s)"
    by (rule scan_arg_states_exclusive [OF i0])
  have b: "\<forall>s\<in>set (arg_loop_states (consume_whitespace rest) ?st2). \<not> (squote s \<and> dquote s)"
    by (rule "2.IH" [OF sc [symmetric] i2])
  have eq: "arg_loop_states (c # cs) st
          = ?st0 # scan_arg_states (c # cs) ?st0
              @ ?st2 # arg_loop_states (consume_whitespace rest) ?st2"
    by (simp only: arg_loop_states.simps sc prod.case)
  have a': "list_all (\<lambda>s. \<not> (squote s \<and> dquote s)) (scan_arg_states (c # cs) ?st0)"
    using a by (simp only: list_all_iff)
  have b': "list_all (\<lambda>s. \<not> (squote s \<and> dquote s))
              (arg_loop_states (consume_whitespace rest) ?st2)"
    using b by (simp only: list_all_iff)
  have "list_all (\<lambda>s. \<not> (squote s \<and> dquote s)) (arg_loop_states (c # cs) st)"
    unfolding eq using i0 i2 a' b' by (simp only: list.pred_inject list_all_append simp_thms)
  then show ?case
    by (simp only: list_all_iff)
qed

text \<open>The states listed end with the state in which the loops are left.\<close>

lemma scan_arg_states_last:
  "last (st # scan_arg_states xs st) = snd (scan_arg xs st)"
  by (induction xs arbitrary: st) simp_all

lemma arg_loop_states_last:
  "last (st # arg_loop_states xs st) = arg_loop xs st"
proof (induction xs st rule: arg_loop_states.induct)
  case (1 st)
  then show ?case by simp
next
  case (2 c cs st)
  obtain rest st' where sc: "scan_arg (c # cs) (st\<lparr>arg := []\<rparr>) = (rest, st')"
    by (cases "scan_arg (c # cs) (st\<lparr>arg := []\<rparr>)")
  let ?st2 = "st'\<lparr>result := result st' @ [arg st']\<rparr>"
  have "last (?st2 # arg_loop_states (consume_whitespace rest) ?st2)
          = arg_loop (consume_whitespace rest) ?st2"
    by (rule "2.IH" [OF sc [symmetric]])
  moreover have "arg_loop_states (c # cs) st
          = st\<lparr>arg := []\<rparr> # scan_arg_states (c # cs) (st\<lparr>arg := []\<rparr>)
              @ ?st2 # arg_loop_states (consume_whitespace rest) ?st2"
    by (simp only: arg_loop_states.simps sc prod.case)
  moreover have "arg_loop (c # cs) st = arg_loop (consume_whitespace rest) ?st2"
    by (simp only: arg_loop.simps sc prod.case)
  ultimately show ?case
    by (simp only: last_ConsR last_appendR list.distinct not_False_eq_True append_is_Nil_conv
        simp_thms last.simps if_False)
qed

lemma buildargv_states_last:
  "last (buildargv_states data) = arg_loop (consume_whitespace data) scanner_init"
  using arg_loop_states_last [of scanner_init "consume_whitespace data"]
  by (simp add: buildargv_states_def Let_def)

lemma buildargv_result_last:
  "buildargv data = result (last (buildargv_states data))"
  by (simp add: buildargv_states_last buildargv_def Let_def scanner_init_def)

subsection \<open>Claim C9\<close>

text \<open>
  C9: in every state that a scan of \<^verbatim>\<open>buildargv\<close> goes through, \<^verbatim>\<open>squote\<close> and \<^verbatim>\<open>dquote\<close> are
  not both true. The states are those of \<open>buildargv_states\<close>, whose last one is the state in
  which the loops are left and holds the result returned. The reason given is part of the
  statement: a round of the inner loop that turns one of the two modes on starts with both
  modes off.
\<close>

theorem quote_modes_exclusive:
  "(\<forall>s\<in>set (buildargv_states data). \<not> (squote s \<and> dquote s))
   \<and> buildargv data = result (last (buildargv_states data))
   \<and> (\<not> squote st \<and> squote (scan_byte c st) \<longrightarrow> \<not> dquote st)
   \<and> (\<not> dquote st \<and> dquote (scan_byte c st) \<longrightarrow> \<not> squote st)"
proof -
  have "\<forall>s\<in>set (arg_loop_states (consume_whitespace data) scanner_init). \<not> (squote s \<and> dquote s)"
    by (rule arg_loop_states_exclusive) (simp add: scanner_init_def)
  then have "\<forall>s\<in>set (buildargv_states data). \<not> (squote s \<and> dquote s)"
    by (simp add: buildargv_states_def Let_def scanner_init_def)
  then show ?thesis
    using buildargv_result_last [of data] scan_byte_enters_squote [of st c]
      scan_byte_enters_dquote [of st c]
    by blast
qed

theorem quote_modes_exclusive_witness:
  "length (buildargv_states (CHR 0x27 # CHR 0x22 # ''a'')) = 6
   \<and> list_all (\<lambda>s. \<not> (squote s \<and> dquote s)) (buildargv_states (CHR 0x27 # CHR 0x22 # ''a''))
   \<and> squote (scan_byte (CHR 0x27) scanner_init) \<and> \<not> dquote scanner_init
   \<and> dquote (scan_byte (CHR 0x22) scanner_init) \<and> \<not> squote scanner_init"
proof -
  have len: "length (buildargv_states (CHR 0x27 # CHR 0x22 # ''a'')) = 6"
    by code_simp
  have sq: "\<not> squote scanner_init \<and> squote (scan_byte (CHR 0x27) scanner_init)"
    by (simp add: scanner_init_def scan_byte_def)
  have dq: "\<not> dquote scanner_init \<and> dquote (scan_byte (CHR 0x22) scanner_init)"
    by (simp add: scanner_init_def scan_byte_def)
  note t1 = quote_modes_exclusive [of "CHR 0x27 # CHR 0x22 # ''a''" scanner_init "CHR 0x27"]
  note t2 = quote_modes_exclusive [of "CHR 0x27 # CHR 0x22 # ''a''" scanner_init "CHR 0x22"]
  from t1 have "\<forall>s\<in>set (buildargv_states (CHR 0x27 # CHR 0x22 # ''a'')). \<not> (squote s \<and> dquote s)"
    by (rule conjunct1)
  then have la: "list_all (\<lambda>s. \<not> (squote s \<and> dquote s)) (buildargv_states (CHR 0x27 # CHR 0x22 # ''a''))"
    by (simp only: list_all_iff)
  from t1 sq have nd: "\<not> dquote scanner_init"
    by blast
  from t2 dq have ns: "\<not> squote scanner_init"
    by blast
  from len la sq dq nd ns show ?thesis
    by blast
qed

section \<open>Properties of \<^verbatim>\<open>Flagparse\<close>\<close>

lemma foldl_append_rows: "foldl (\<lambda>args row. args @ [row]) args rows = args @ rows"
  by (induction rows arbitrary: args) simp_all

lemma expand_args_plain:
  "\<not> HasPrefix a ''@'' \<Longrightarrow> expand_args sys (a # as) args lg = expand_args sys as (args @ [a]) lg"
  by simp

lemma expand_args_not_exist:
  "HasPrefix a ''@'' \<Longrightarrow> Open sys (drop 1 a) = Inl ErrNotExist \<Longrightarrow>
   expand_args sys (a # as) args lg
     = expand_args sys as (args @ [a]) (lg @ [Unable_to_open (drop 1 a) (Some ErrNotExist)])"
  by (auto simp: HasPrefix_def IsNotExist_def Let_def)

lemma expand_args_success:
  "HasPrefix a ''@'' \<Longrightarrow> Open sys (drop 1 a) = Inr f \<Longrightarrow> ReadAll sys (Some f) = Inr contents \<Longrightarrow>
   Close sys (Some f) = None \<Longrightarrow>
   expand_args sys (a # as) args lg = expand_args sys as (args @ buildargv contents) lg"
  by (auto simp: HasPrefix_def IsNotExist_def Let_def foldl_append_rows)

lemma expand_args_read_error:
  "HasPrefix a ''@'' \<Longrightarrow> Open sys (drop 1 a) = Inr f \<Longrightarrow> ReadAll sys (Some f) = Inl e \<Longrightarrow>
   expand_args sys (a # as) args lg = Inl (Unable_to_read (drop 1 a) e)"
  by (auto simp: HasPrefix_def IsNotExist_def Let_def)

lemma expand_args_close_error:
  "HasPrefix a ''@'' \<Longrightarrow> Open sys (drop 1 a) = Inr f \<Longrightarrow> ReadAll sys (Some f) = Inr contents \<Longrightarrow>
   Close sys (Some f) = Some e \<Longrightarrow>
   expand_args sys (a # as) args lg = Inl (Unable_to_close (drop 1 a) e)"
  by (auto simp: HasPrefix_def IsNotExist_def Let_def)

text \<open>
  When the open fails with an error that is not ``does not exist'', the error is dropped
  and the \<^verbatim>\<open>nil\<close> file is read and closed: what happens next is decided by these two calls
  alone.
\<close>

lemma expand_args_open_error:
  "HasPrefix a ''@'' \<Longrightarrow> Open sys (drop 1 a) = Inl e \<Longrightarrow> e \<noteq> ErrNotExist \<Longrightarrow>
   expand_args sys (a # as) args lg =
     (case ReadAll sys None of
        Inl e' \<Rightarrow> Inl (Unable_to_read (drop 1 a) e')
      | Inr contents \<Rightarrow>
          (case Close sys None of
             Some e' \<Rightarrow> Inl (Unable_to_close (drop 1 a) e')
           | None \<Rightarrow> expand_args sys as (args @ buildargv contents) lg))"
  by (auto simp: HasPrefix_def IsNotExist_def Let_def foldl_append_rows split: sum.splits option.splits)

lemma expand_args_spliced:
  assumes "\<forall>a\<in>set as. HasPrefix a ''@'' \<longrightarrow>
             Open sys (drop 1 a) = Inl ErrNotExist
             \<or> (\<exists>f contents. Open sys (drop 1 a) = Inr f \<and> ReadAll sys (Some f) = Inr contents
                  \<and> Close sys (Some f) = None)"
  shows "expand_args sys as args lg =
           Inr (args @ concat (map (spliced sys) as),
                lg @ map (\<lambda>a. Unable_to_open (drop 1 a) (Some ErrNotExist))
                       (filter (\<lambda>a. HasPrefix a ''@'' \<and> Open sys (drop 1 a) = Inl ErrNotExist) as))"
  using assms
proof (induction as arbitrary: args lg)
  case Nil
  then show ?case by simp
next
  case (Cons a as)
  then have IH: "\<And>args lg. expand_args sys as args lg =
           Inr (args @ concat (map (spliced sys) as),
                lg @ map (\<lambda>a. Unable_to_open (drop 1 a) (Some ErrNotExist))
                       (filter (\<lambda>a. HasPrefix a ''@'' \<and> Open sys (drop 1 a) = Inl ErrNotExist) as))"
    by simp
  consider (plain) "\<not> HasPrefix a ''@''"
    | (missing) "HasPrefix a ''@''" "Open sys (drop 1 a) = Inl ErrNotExist"
    | (found) f contents where "HasPrefix a ''@''" "Open sys (drop 1 a) = Inr f"
        "ReadAll sys (Some f) = Inr contents" "Close sys (Some f) = None"
    using Cons.prems by auto
  then show ?case
  proof cases
    case plain
    then have "spliced sys a = [a]"
      by (simp add: spliced_def)
    with plain show ?thesis
      by (simp only: expand_args_plain [OF plain] IH) simp
  next
    case missing
    then have "spliced sys a = [a]"
      by (simp add: spliced_def)
    with missing show ?thesis
      by (simp only: expand_args_not_exist [OF missing] IH) simp
  next
    case found
    then have "spliced sys a = buildargv contents"
      by (simp add: spliced_def)
    with found show ?thesis
      by (simp only: expand_args_success [OF found] IH) simp
  qed
qed

lemma Flagparse_fatal_examples:
  "Flagparse example_os [''prog'', ''@dir'', ''-v''] = Inl (Unable_to_read ''dir'' ErrIO)"
  "Flagparse example_os [''prog'', ''@flaky'', ''-v''] = Inl (Unable_to_close ''flaky'' ErrIO)"
  "Flagparse example_os [''prog'', ''@missingfile'', ''-v'']
     = Inr ([''prog'', ''@missingfile'', ''-v''], [Unable_to_open ''missingfile'' (Some ErrNotExist)])"
  by code_simp+

subsection \<open>Claim C2\<close>

text \<open>
  C2 says that a response file that does not exist is logged and its \<^verbatim>\<open>@\<close>-token kept, and
  that every other failure to open, and every failure to read or close, ends the process with
  a message that names the file and the underlying error. The first part holds
  (\<open>expand_args_not_exist\<close>), and so does the second for read and close failures
  (\<open>expand_args_read_error\<close>, \<open>expand_args_close_error\<close>). But the error of \<^verbatim>\<open>os.Open\<close> is
  only tested with \<^verbatim>\<open>os.IsNotExist\<close>: after any other failure the code goes on to read the
  \<^verbatim>\<open>nil\<close> file (\<open>expand_args_open_error\<close>). With \<^verbatim>\<open>secret\<close> failing to open for lack of
  permission, the process ends with the message \<^verbatim>\<open>Unable to read contents\<close> and the error of
  the read of the \<^verbatim>\<open>nil\<close> file; the permission error is in no message.
\<close>

theorem Flagparse_open_error_dropped:
  "Open example_os ''secret'' = Inl ErrPermission
   \<and> Flagparse example_os [''prog'', ''@secret'', ''-v''] = Inl (Unable_to_read ''secret'' ErrInvalid)"
  by code_simp

subsection \<open>Claim C3\<close>

text \<open>
  C3: the expansion keeps the order of the arguments. When every \<^verbatim>\<open>@\<close>-argument names a
  file that does not exist, or one that opens, reads and closes, the new argument list is
  the concatenation, in order, of what takes the place of each argument (\<open>spliced\<close>): the
  argument itself when it does not begin with \<^verbatim>\<open>@\<close>, the tokens \<^verbatim>\<open>buildargv\<close> returns for the
  whole contents of the file when it opens. The tokens are appended as they are and are not
  looked at again: \<^verbatim>\<open>outer\<close> holds \<^verbatim>\<open>@resp -z\<close>, and \<^verbatim>\<open>@outer\<close> gives \<^verbatim>\<open>@resp\<close>, \<^verbatim>\<open>-z\<close> although
  \<^verbatim>\<open>resp\<close> exists. With \<^verbatim>\<open>resp\<close> holding \<^verbatim>\<open>-x -y=1\<close>, \<^verbatim>\<open>prog @resp\<close> gives \<^verbatim>\<open>prog -x -y=1\<close>.
\<close>

theorem Flagparse_splices_in_order:
  "((\<forall>a\<in>set as. HasPrefix a ''@'' \<longrightarrow>
        Open sys (drop 1 a) = Inl ErrNotExist
        \<or> (\<exists>f contents. Open sys (drop 1 a) = Inr f \<and> ReadAll sys (Some f) = Inr contents
             \<and> Close sys (Some f) = None)) \<longrightarrow>
      Flagparse sys as =
        Inr (concat (map (spliced sys) as),
             map (\<lambda>a. Unable_to_open (drop 1 a) (Some ErrNotExist))
               (filter (\<lambda>a. HasPrefix a ''@'' \<and> Open sys (drop 1 a) = Inl ErrNotExist) as)))
   \<and> (\<not> HasPrefix a ''@'' \<longrightarrow> spliced sys a = [a])
   \<and> (HasPrefix a ''@'' \<and> Open sys (drop 1 a) = Inr f \<and> ReadAll sys (Some f) = Inr contents \<longrightarrow>
        spliced sys a = buildargv contents)
   \<and> Flagparse example_os [''prog'', ''@resp''] = Inr ([''prog'', ''-x'', ''-y=1''], [])
   \<and> Flagparse example_os [''prog'', ''@outer'', ''@resp'']
        = Inr ([''prog'', ''@resp'', ''-z'', ''-x'', ''-y=1''], [])"
proof -
  have ex: "Flagparse example_os [''prog'', ''@resp''] = Inr ([''prog'', ''-x'', ''-y=1''], [])"
    "Flagparse example_os [''prog'', ''@outer'', ''@resp'']
        = Inr ([''prog'', ''@resp'', ''-z'', ''-x'', ''-y=1''], [])"
    by code_simp+
  have sp: "\<not> HasPrefix a ''@'' \<longrightarrow> spliced sys a = [a]"
    "HasPrefix a ''@'' \<and> Open sys (drop 1 a) = Inr f \<and> ReadAll sys (Some f) = Inr contents \<longrightarrow>
        spliced sys a = buildargv contents"
    by (simp_all add: spliced_def)
  show ?thesis
    using expand_args_spliced [of as sys "[]" "[]"] ex sp
    unfolding Flagparse_def by simp
qed

theorem Flagparse_splices_in_order_witness:
  "Flagparse example_os [''prog'', ''@resp'', ''-v'', ''@nofile'']
     = Inr ([''prog'', ''-x'', ''-y=1'', ''-v'', ''@nofile''], [Unable_to_open ''nofile'' (Some ErrNotExist)])
   \<and> spliced example_os ''-v'' = [''-v'']
   \<and> spliced example_os ''@resp'' = [''-x'', ''-y=1'']"
proof -
  have b: "buildargv ''-x -y=1'' = [''-x'', ''-y=1'']"
    by code_simp
  have o: "Open example_os ''resp'' = Inr 3" "ReadAll example_os (Some 3) = Inr ''-x -y=1''"
    "Close example_os (Some 3) = None" "Open example_os ''nofile'' = Inl ErrNotExist"
    by (simp_all add: example_os_def)
  have h: "\<forall>a\<in>set [''prog'', ''@resp'', ''-v'', ''@nofile'']. HasPrefix a ''@'' \<longrightarrow>
        Open example_os (drop 1 a) = Inl ErrNotExist
        \<or> (\<exists>f contents. Open example_os (drop 1 a) = Inr f \<and> ReadAll example_os (Some f) = Inr contents
             \<and> Close example_os (Some f) = None)"
    using o by (simp add: HasPrefix_def)
  note T1 = Flagparse_splices_in_order
    [where as = "[''prog'', ''@resp'', ''-v'', ''@nofile'']" and sys = example_os and a = "''-v''"]
  note T2 = Flagparse_splices_in_order
    [where sys = example_os and a = "''@resp''" and f = 3 and contents = "''-x -y=1''"]
  have "\<not> HasPrefix ''-v'' ''@''"
    by (simp add: HasPrefix_def)
  then have s1: "spliced example_os ''-v'' = [''-v'']"
    by (rule T1 [THEN conjunct2, THEN conjunct1, THEN mp])
  have "HasPrefix ''@resp'' ''@'' \<and> Open example_os (drop 1 ''@resp'') = Inr 3
          \<and> ReadAll example_os (Some 3) = Inr ''-x -y=1''"
    using o by (simp add: HasPrefix_def)
  then have "spliced example_os ''@resp'' = buildargv ''-x -y=1''"
    by (rule T2 [THEN conjunct2, THEN conjunct2, THEN conjunct1, THEN mp])
  with b have s2: "spliced example_os ''@resp'' = [''-x'', ''-y=1'']"
    by simp
  have s3: "spliced example_os ''prog'' = [''prog'']" "spliced example_os ''@nofile'' = [''@nofile'']"
    using o by (simp_all add: spliced_def HasPrefix_def)
  have f: "filter (\<lambda>a. HasPrefix a ''@'' \<and> Open example_os (drop 1 a) = Inl ErrNotExist)
             [''prog'', ''@resp'', ''-v'', ''@nofile''] = [''@nofile'']"
    using o by (simp add: HasPrefix_def)
  have "Flagparse example_os [''prog'', ''@resp'', ''-v'', ''@nofile'']
     = Inr (concat (map (spliced example_os) [''prog'', ''@resp'', ''-v'', ''@nofile'']),
             map (\<lambda>a. Unable_to_open (drop 1 a) (Some ErrNotExist))
               (filter (\<lambda>a. HasPrefix a ''@'' \<and> Open example_os (drop 1 a) = Inl ErrNotExist)
                  [''prog'', ''@resp'', ''-v'', ''@nofile'']))"
    using h by (rule T1 [THEN conjunct1, THEN mp])
  then have "Flagparse example_os [''prog'', ''@resp'', ''-v'', ''@nofile'']
     = Inr ([''prog'', ''-x'', ''-y=1'', ''-v'', ''@nofile''], [Unable_to_open ''nofile'' (Some ErrNotExist)])"
    unfolding f by (simp add: s1 s2 s3)
  with s1 s2 show ?thesis
    by (intro conjI)
qed

section \<open>Properties of the flag values\<close>

subsection \<open>\<^verbatim>\<open>count\<close>\<close>

lemma Atoi_range: "Atoi s = Some n \<Longrightarrow> - (2 ^ 63) \<le> n \<and> n < 2 ^ 63"
  by (auto simp: Atoi_def Let_def split: option.splits if_splits)

lemma sint_count_of_int:
  "- (2 ^ 63) \<le> n \<Longrightarrow> n < 2 ^ 63 \<Longrightarrow> sint (word_of_int n :: count) = n"
  by (simp add: signed_of_int signed_take_bit_int_eq_self)

lemma sint_count_succ:
  "sint (c :: count) < 2 ^ 63 - 1 \<Longrightarrow> sint (c + 1) = sint c + 1"
proof -
  assume a: "sint c < 2 ^ 63 - 1"
  have b: "- (2 ^ 63) \<le> sint c"
    using sint_ge [of c] by simp
  have "sint (c + 1) = signed_take_bit 63 (sint c + 1)"
    by (simp add: sint_word_ariths)
  also have "\<dots> = sint c + 1"
    using a b by (intro signed_take_bit_int_eq_self) simp_all
  finally show ?thesis .
qed

lemma Atoi_examples:
  "Atoi ''7'' = Some 7" "Atoi ''abc'' = None" "Atoi ''-12'' = Some (- 12)" "Atoi ''+5'' = Some 5"
  "Atoi [] = None" "Atoi ''-'' = None" "Atoi ''1x'' = None"
  "Atoi ''9223372036854775807'' = Some 9223372036854775807"
  "Atoi ''9223372036854775808'' = None"
  "Atoi ''-9223372036854775808'' = Some (- 9223372036854775808)"
  by (simp_all add: Atoi_def digit_def Let_def)

subsection \<open>Claim C6\<close>

text \<open>
  C6: \<^verbatim>\<open>Set("true")\<close> adds one to the count (in the arithmetic of \<^verbatim>\<open>int\<close>, so without
  overflow below the largest \<^verbatim>\<open>int\<close>), \<^verbatim>\<open>Set("false")\<close> makes it zero, and any other string is
  handed to \<^verbatim>\<open>strconv.Atoi\<close>: a number parsed becomes the count, a failure leaves the count
  as it was and returns the error \<^verbatim>\<open>invalid count\<close> with the string. The run of the
  specification: from 0, three times \<^verbatim>\<open>true\<close> gives 1, 2, 3; \<^verbatim>\<open>false\<close> gives 0; \<^verbatim>\<open>7\<close> gives 7;
  \<^verbatim>\<open>abc\<close> gives the error and leaves 7.
\<close>

theorem count_Set_cases:
  "count_Set c ''true'' = (c + 1, None)
   \<and> (sint c < 2 ^ 63 - 1 \<longrightarrow> sint (fst (count_Set c ''true'')) = sint c + 1)
   \<and> count_Set c ''false'' = (0, None)
   \<and> (s \<noteq> ''true'' \<and> s \<noteq> ''false'' \<and> Atoi s = Some n \<longrightarrow>
        count_Set c s = (word_of_int n, None) \<and> sint (fst (count_Set c s)) = n)
   \<and> (s \<noteq> ''true'' \<and> s \<noteq> ''false'' \<and> Atoi s = None \<longrightarrow>
        count_Set c s = (c, Some (invalid_count s)))
   \<and> count_Set 0 ''true'' = (1, None)
   \<and> count_Set 1 ''true'' = (2, None)
   \<and> count_Set 2 ''true'' = (3, None)
   \<and> count_Set 3 ''false'' = (0, None)
   \<and> count_Set 0 ''7'' = (7, None)
   \<and> count_Set 7 ''abc'' = (7, Some (invalid_count ''abc''))"
proof -
  have t: "count_Set c ''true'' = (c + 1, None)" for c
    by (simp add: count_Set_def)
  have f: "count_Set c ''false'' = (0, None)" for c
    by (simp add: count_Set_def)
  have inc: "sint c < 2 ^ 63 - 1 \<longrightarrow> sint (fst (count_Set c ''true'')) = sint c + 1"
    by (simp add: t sint_count_succ)
  have ok: "s \<noteq> ''true'' \<and> s \<noteq> ''false'' \<and> Atoi s = Some n \<longrightarrow>
        count_Set c s = (word_of_int n, None) \<and> sint (fst (count_Set c s)) = n"
    using Atoi_range [of s n] by (auto simp: count_Set_def sint_count_of_int)
  have bad: "s \<noteq> ''true'' \<and> s \<noteq> ''false'' \<and> Atoi s = None \<longrightarrow>
        count_Set c s = (c, Some (invalid_count s))" for c s
    by (simp add: count_Set_def)
  have seven: "count_Set 0 ''7'' = (7, None)"
    by (simp add: count_Set_def Atoi_examples)
  have abc: "count_Set 7 ''abc'' = (7, Some (invalid_count ''abc''))"
    by (simp add: count_Set_def Atoi_examples)
  have run: "count_Set 0 ''true'' = (1, None)" "count_Set 1 ''true'' = (2, None)"
    "count_Set 2 ''true'' = (3, None)" "count_Set 3 ''false'' = (0, None)"
    by (simp_all add: t f)
  from t [of c] inc f [of c] ok bad [of s c] run seven abc show ?thesis
    by (intro conjI)
qed

theorem count_Set_cases_witness:
  "sint (fst (count_Set 41 ''true'')) = 42
   \<and> count_Set 5 ''-12'' = (word_of_int (- 12), None) \<and> sint (fst (count_Set 5 ''-12'')) = - 12
   \<and> count_Set 5 ''1x'' = (5, Some (invalid_count ''1x''))"
proof -
  note T1 = count_Set_cases [where c = 41]
  note T2 = count_Set_cases [where c = 5 and s = "''-12''" and n = "- 12"]
  note T3 = count_Set_cases [where c = 5 and s = "''1x''"]
  have "sint (41 :: count) < 2 ^ 63 - 1"
    by simp
  then have "sint (fst (count_Set 41 ''true'')) = sint (41 :: count) + 1"
    by (rule T1 [THEN conjunct2, THEN conjunct1, THEN mp])
  then have a: "sint (fst (count_Set 41 ''true'')) = 42"
    by simp
  have "''-12'' \<noteq> ''true'' \<and> ''-12'' \<noteq> ''false'' \<and> Atoi ''-12'' = Some (- 12)"
    by (simp add: Atoi_examples)
  then have b: "count_Set 5 ''-12'' = (word_of_int (- 12), None) \<and> sint (fst (count_Set 5 ''-12'')) = - 12"
    by (rule T2 [THEN conjunct2, THEN conjunct2, THEN conjunct2, THEN conjunct1, THEN mp])
  have "''1x'' \<noteq> ''true'' \<and> ''1x'' \<noteq> ''false'' \<and> Atoi ''1x'' = None"
    by (simp add: Atoi_examples)
  then have c: "count_Set 5 ''1x'' = (5, Some (invalid_count ''1x''))"
    by (rule T3 [THEN conjunct2, THEN conjunct2, THEN conjunct2, THEN conjunct2, THEN conjunct1, THEN mp])
  from a b c show ?thesis
    by (intro conjI) simp_all
qed

subsection \<open>\<^verbatim>\<open>versionFlag\<close>\<close>

lemma HasPrefix_single: "HasPrefix t [c] \<longleftrightarrow> t \<noteq> [] \<and> hd t = c"
  by (cases t) (simp_all add: HasPrefix_def)

lemma last_index_from_absent: "c \<notin> set s \<Longrightarrow> last_index_from n s [c] = - 1"
proof (induction n)
  case 0
  then show ?case
    by (cases s) (auto simp: HasPrefix_single)
next
  case (Suc n)
  have "\<not> HasPrefix (drop (Suc n) s) [c]"
  proof
    assume "HasPrefix (drop (Suc n) s) [c]"
    then have "drop (Suc n) s \<noteq> []" and "hd (drop (Suc n) s) = c"
      by (simp_all add: HasPrefix_single)
    then have "c \<in> set (drop (Suc n) s)"
      by (metis hd_in_set)
    then have "c \<in> set s"
      by (rule in_set_dropD)
    with Suc.prems show False
      by simp
  qed
  with Suc show ?case
    by simp
qed

lemma LastIndex_absent: "c \<notin> set s \<Longrightarrow> LastIndex s [c] = - 1"
  by (simp add: LastIndex_def last_index_from_absent)

lemma last_index_from_last:
  "c \<notin> set base \<Longrightarrow> k \<le> length base \<Longrightarrow>
   last_index_from (length pre + k) (pre @ c # base) [c] = int (length pre)"
proof (induction k)
  case 0
  show ?case
  proof (cases "length pre")
    case 0
    then show ?thesis
      by (simp add: HasPrefix_single)
  next
    case (Suc m)
    have "drop (length pre) (pre @ c # base) = c # base"
      by simp
    then have "HasPrefix (drop (Suc m) (pre @ c # base)) [c]"
      unfolding Suc [symmetric] by (simp add: HasPrefix_single)
    then show ?thesis
      using Suc by simp
  qed
next
  case (Suc k)
  have d: "drop (Suc (length pre + k)) (pre @ c # base) = drop k base"
    by simp
  have "\<not> HasPrefix (drop k base) [c]"
  proof
    assume "HasPrefix (drop k base) [c]"
    then have "drop k base \<noteq> []" and "hd (drop k base) = c"
      by (simp_all add: HasPrefix_single)
    then have "c \<in> set (drop k base)"
      by (metis hd_in_set)
    then have "c \<in> set base"
      by (rule in_set_dropD)
    with Suc.prems show False
      by simp
  qed
  then have "last_index_from (Suc (length pre + k)) (pre @ c # base) [c]
               = last_index_from (length pre + k) (pre @ c # base) [c]"
    by (simp only: last_index_from.simps d if_False)
  with Suc show ?case
    by simp
qed

lemma LastIndex_last:
  assumes "c \<notin> set base"
  shows "LastIndex (pre @ c # base) [c] = int (length pre)"
proof -
  have "LastIndex (pre @ c # base) [c]
          = last_index_from (length pre + length base) (pre @ c # base) [c]"
    by (simp add: LastIndex_def)
  also have "\<dots> = int (length pre)"
    using assms by (rule last_index_from_last) simp
  finally show ?thesis .
qed

text \<open>\<^verbatim>\<open>name[strings.LastIndex(name, sep)+1:]\<close> for a separator of one byte.\<close>

lemma after_last_absent: "c \<notin> set s \<Longrightarrow> drop (nat (LastIndex s [c] + 1)) s = s"
  by (simp add: LastIndex_absent)

lemma after_last_present:
  "c \<notin> set base \<Longrightarrow> drop (nat (LastIndex (pre @ c # base) [c] + 1)) (pre @ c # base) = base"
  by (simp add: LastIndex_last nat_add_distrib)

lemma after_last_cases:
  obtains "c \<notin> set s" "drop (nat (LastIndex s [c] + 1)) s = s"
  | pre base where "s = pre @ c # base" "c \<notin> set base" "drop (nat (LastIndex s [c] + 1)) s = base"
proof (cases "c \<in> set s")
  case False
  then show ?thesis
    using that(1) after_last_absent by blast
next
  case True
  then obtain pre base where "s = pre @ c # base" "c \<notin> set base"
    by (meson split_list_last)
  then show ?thesis
    using that(2) after_last_present by blast
qed

lemma TrimSuffix_append: "TrimSuffix (b @ suffix) suffix = b"
  by (simp add: TrimSuffix_def HasSuffix_def)

lemma TrimSuffix_no_suffix: "\<not> HasSuffix b suffix \<Longrightarrow> TrimSuffix b suffix = b"
  by (simp add: TrimSuffix_def)

lemma program_name_base:
  assumes "c = CHR ''/'' \<or> c = CHR 0x5C" and "CHR ''/'' \<notin> set base" and "CHR 0x5C \<notin> set base"
  shows "program_name (dir @ c # base) = TrimSuffix base ''.exe''"
proof -
  let ?name0 = "dir @ c # base"
  let ?name1 = "drop (nat (LastIndex ?name0 ''/'' + 1)) ?name0"
  have "drop (nat (LastIndex ?name1 [CHR 0x5C] + 1)) ?name1 = base"
  proof (cases "c = CHR ''/''")
    case True
    have "drop (nat (LastIndex (dir @ CHR ''/'' # base) ''/'' + 1)) (dir @ CHR ''/'' # base) = base"
      using assms(2) by (rule after_last_present)
    then have n1: "?name1 = base"
      unfolding True .
    have "drop (nat (LastIndex base [CHR 0x5C] + 1)) base = base"
      using assms(3) by (rule after_last_absent)
    then show ?thesis
      by (simp only: n1)
  next
    case False
    with assms(1) have c: "c = CHR 0x5C"
      by simp
    have "\<exists>pre. ?name1 = pre @ c # base"
    proof (cases "CHR ''/'' \<in> set dir")
      case True
      then obtain d1 d2 where d: "dir = d1 @ CHR ''/'' # d2" "CHR ''/'' \<notin> set d2"
        by (meson split_list_last)
      have "CHR ''/'' \<notin> set (d2 @ c # base)"
        using d(2) False assms(2) by auto
      then have "drop (nat (LastIndex (d1 @ CHR ''/'' # (d2 @ c # base)) ''/'' + 1))
                   (d1 @ CHR ''/'' # (d2 @ c # base)) = d2 @ c # base"
        by (rule after_last_present)
      moreover have "d1 @ CHR ''/'' # (d2 @ c # base) = ?name0"
        by (simp only: d(1) append.simps append_assoc)
      ultimately have "?name1 = d2 @ c # base"
        by (simp only:)
      then show ?thesis
        by blast
    next
      case no: False
      then have "CHR ''/'' \<notin> set ?name0"
        using False assms(2) by auto
      then have "?name1 = ?name0"
        by (rule after_last_absent)
      then show ?thesis
        by blast
    qed
    then obtain pre where e: "?name1 = pre @ CHR 0x5C # base"
      unfolding c by blast
    have "drop (nat (LastIndex (pre @ CHR 0x5C # base) [CHR 0x5C] + 1)) (pre @ CHR 0x5C # base) = base"
      using assms(3) by (rule after_last_present)
    then show ?thesis
      by (simp only: e)
  qed
  then show ?thesis
    by (simp only: program_name_def Let_def)
qed

lemma program_name_no_dir:
  assumes "CHR ''/'' \<notin> set name" and "CHR 0x5C \<notin> set name"
  shows "program_name name = TrimSuffix name ''.exe''"
  using assms by (simp add: program_name_def Let_def after_last_absent)

lemma after_last_no_separator: "c \<notin> set (drop (nat (LastIndex s [c] + 1)) s)"
  by (rule after_last_cases [of c s]) simp_all

lemma set_TrimSuffix: "set (TrimSuffix s suffix) \<subseteq> set s"
  by (cases "HasSuffix s suffix") (simp_all add: TrimSuffix_def set_take_subset)

lemma program_name_no_separator:
  "CHR ''/'' \<notin> set (program_name a) \<and> CHR 0x5C \<notin> set (program_name a)"
proof -
  let ?name1 = "drop (nat (LastIndex a ''/'' + 1)) a"
  let ?name2 = "drop (nat (LastIndex ?name1 [CHR 0x5C] + 1)) ?name1"
  have 1: "CHR ''/'' \<notin> set ?name1"
    by (rule after_last_no_separator)
  have 2: "CHR 0x5C \<notin> set ?name2"
    by (rule after_last_no_separator)
  have "set ?name2 \<subseteq> set ?name1"
    by (rule set_drop_subset)
  with 1 have 3: "CHR ''/'' \<notin> set ?name2"
    by blast
  have sub: "set (TrimSuffix ?name2 ''.exe'') \<subseteq> set ?name2"
    by (rule set_TrimSuffix)
  have 4: "CHR ''/'' \<notin> set (TrimSuffix ?name2 ''.exe'')"
    using sub 3 by (rule contra_subsetD)
  have 5: "CHR 0x5C \<notin> set (TrimSuffix ?name2 ''.exe'')"
    using sub 2 by (rule contra_subsetD)
  from 4 5 show ?thesis
    by (simp only: program_name_def Let_def simp_thms)
qed

lemma versionFlag_Set_output:
  assumes "os_Args pr = a # rest"
  shows "versionFlag_Set pr s =
           Exit 0 (program_name a @ '' version '' @ Version pr
             @ (if Expstring pr = DefaultExpstring pr \<or> Expstring pr = [] then []
                else '' '' @ Expstring pr)
             @ (if s = ''full'' \<and> HasPrefix (Version pr) ''devel'' then '' buildID='' @ buildID pr
                else [])
             @ [CHR 0x0A])"
  using assms by (simp add: versionFlag_Set_def Let_def)

subsection \<open>Claim C7\<close>

text \<open>
  C7: \<^verbatim>\<open>versionFlag.Set\<close> prints one line and exits with status 0. The line is the program's
  base name, \<^verbatim>\<open>version\<close>, the release version, the experiment string after a space unless it
  equals the default string (or is empty), and \<^verbatim>\<open>buildID=\<close> with the build identifier exactly
  when the value is \<^verbatim>\<open>full\<close> and the release version begins with \<^verbatim>\<open>devel\<close>. The base name
  of a path that ends in a separator \<^verbatim>\<open>/\<close> or \<^verbatim>\<open>\\<close> followed by a name without separators is
  that name without a trailing \<^verbatim>\<open>.exe\<close>; a path without separators is its own name; the
  base name never holds a separator. For \<^verbatim>\<open>/usr/local/bin/tool.exe\<close>, a \<^verbatim>\<open>devel\<close> release and the
  value \<^verbatim>\<open>full\<close> the line names \<^verbatim>\<open>tool\<close> and ends with the build identifier.
\<close>

theorem versionFlag_Set_line:
  "(os_Args pr = a # rest \<longrightarrow>
      versionFlag_Set pr s =
        Exit 0 (program_name a @ '' version '' @ Version pr
          @ (if Expstring pr = DefaultExpstring pr \<or> Expstring pr = [] then []
             else '' '' @ Expstring pr)
          @ (if s = ''full'' \<and> HasPrefix (Version pr) ''devel'' then '' buildID='' @ buildID pr
             else [])
          @ [CHR 0x0A]))
   \<and> ((c = CHR ''/'' \<or> c = CHR 0x5C) \<and> CHR ''/'' \<notin> set base \<and> CHR 0x5C \<notin> set base \<longrightarrow>
        program_name (dir @ c # base) = TrimSuffix base ''.exe'')
   \<and> (CHR ''/'' \<notin> set base \<and> CHR 0x5C \<notin> set base \<longrightarrow>
        program_name base = TrimSuffix base ''.exe'')
   \<and> TrimSuffix (b @ ''.exe'') ''.exe'' = b
   \<and> (\<not> HasSuffix b ''.exe'' \<longrightarrow> TrimSuffix b ''.exe'' = b)
   \<and> CHR ''/'' \<notin> set (program_name a) \<and> CHR 0x5C \<notin> set (program_name a)
   \<and> versionFlag_Set example_process ''full''
        = Exit 0 (''tool version devel +abc123 buildID=ID42'' @ [CHR 0x0A])
   \<and> versionFlag_Set example_process ''true''
        = Exit 0 (''tool version devel +abc123'' @ [CHR 0x0A])
   \<and> versionFlag_Set (example_process\<lparr>Version := ''go1.9'', Expstring := ''X:nofp''\<rparr>) ''full''
        = Exit 0 (''tool version go1.9 X:nofp'' @ [CHR 0x0A])"
proof -
  have ex: "versionFlag_Set example_process ''full''
        = Exit 0 (''tool version devel +abc123 buildID=ID42'' @ [CHR 0x0A])"
    "versionFlag_Set example_process ''true''
        = Exit 0 (''tool version devel +abc123'' @ [CHR 0x0A])"
    "versionFlag_Set (example_process\<lparr>Version := ''go1.9'', Expstring := ''X:nofp''\<rparr>) ''full''
        = Exit 0 (''tool version go1.9 X:nofp'' @ [CHR 0x0A])"
    by code_simp+
  show ?thesis
    using versionFlag_Set_output [of pr a rest s] program_name_base [of c base dir]
      program_name_no_dir [of base] TrimSuffix_append [of b "''.exe''"]
      TrimSuffix_no_suffix [of b "''.exe''"] program_name_no_separator [of a] ex
    by blast
qed

theorem versionFlag_Set_line_witness:
  "versionFlag_Set example_process ''full''
     = Exit 0 (program_name ''/usr/local/bin/tool.exe'' @ '' version devel +abc123 buildID=ID42'' @ [CHR 0x0A])
   \<and> program_name ''/usr/local/bin/tool.exe'' = ''tool''
   \<and> program_name ''tool'' = ''tool''"
proof -
  note T = versionFlag_Set_line [where pr = example_process and a = "''/usr/local/bin/tool.exe''"
      and rest = "[''-V=full'']" and s = "''full''" and c = "CHR ''/''" and dir = "''/usr/local/bin''"
      and base = "''tool.exe''" and b = "''tool''"]
  note T' = versionFlag_Set_line [where base = "''tool''" and b = "''tool''"]
  have "os_Args example_process = ''/usr/local/bin/tool.exe'' # [''-V=full'']"
    by (simp add: example_process_def)
  then have a: "versionFlag_Set example_process ''full'' =
        Exit 0 (program_name ''/usr/local/bin/tool.exe'' @ '' version '' @ Version example_process
          @ (if Expstring example_process = DefaultExpstring example_process \<or> Expstring example_process = [] then []
             else '' '' @ Expstring example_process)
          @ (if ''full'' = ''full'' \<and> HasPrefix (Version example_process) ''devel'' then '' buildID='' @ buildID example_process
             else [])
          @ [CHR 0x0A])"
    by (rule T [THEN conjunct1, THEN mp])
  have "(CHR ''/'' = CHR ''/'' \<or> CHR ''/'' = CHR 0x5C) \<and> CHR ''/'' \<notin> set ''tool.exe'' \<and> CHR 0x5C \<notin> set ''tool.exe''"
    by simp
  then have "program_name (''/usr/local/bin'' @ CHR ''/'' # ''tool.exe'') = TrimSuffix ''tool.exe'' ''.exe''"
    by (rule T [THEN conjunct2, THEN conjunct1, THEN mp])
  moreover have "TrimSuffix (''tool'' @ ''.exe'') ''.exe'' = ''tool''"
    by (rule T [THEN conjunct2, THEN conjunct2, THEN conjunct2, THEN conjunct1])
  ultimately have b: "program_name ''/usr/local/bin/tool.exe'' = ''tool''"
    by simp
  have "CHR ''/'' \<notin> set ''tool'' \<and> CHR 0x5C \<notin> set ''tool''"
    by simp
  then have "program_name ''tool'' = TrimSuffix ''tool'' ''.exe''"
    by (rule T' [THEN conjunct2, THEN conjunct2, THEN conjunct1, THEN mp])
  moreover have "\<not> HasSuffix ''tool'' ''.exe''"
    by (simp add: HasSuffix_def)
  then have "TrimSuffix ''tool'' ''.exe'' = ''tool''"
    by (rule T' [THEN conjunct2, THEN conjunct2, THEN conjunct2, THEN conjunct2, THEN conjunct1, THEN mp])
  ultimately have c: "program_name ''tool'' = ''tool''"
    by simp
  from a have a': "versionFlag_Set example_process ''full''
     = Exit 0 (program_name ''/usr/local/bin/tool.exe'' @ '' version devel +abc123 buildID=ID42'' @ [CHR 0x0A])"
    by (simp add: example_process_def HasPrefix_def)
  from a' b c show ?thesis
    by (intro conjI)
qed

end
